theory Spec2Isabelle
  imports Main "HOL-Library.AList"
begin

section \<open>JavaScript values, objects and failures\<close>

text \<open>
  The module \<^verbatim>\<open>simple-markdown.jsx\<close> builds a parser from a rule table and a priority list
  (\<^verbatim>\<open>parserFor\<close>), an output walker from an output function (\<^verbatim>\<open>outputFor\<close>), and a set of
  default rules. Strings are modelled as \<^typ>\<open>string\<close> (characters of one byte), objects as
  association lists in insertion order, and arrays as lists.
\<close>

datatype val =
    Undefined
  | Bool bool
  | Num nat
  | Str string
  | Arr "val list"
  | Obj "(string \<times> val) list"

text \<open>
  A JavaScript exception is a value: \<open>Error msg\<close> is \<^verbatim>\<open>throw new Error(msg)\<close>, and
  \<open>TypeError\<close> is what the runtime raises on a property read of \<^verbatim>\<open>undefined\<close> or \<^verbatim>\<open>null\<close>
  and on a call of something that is not a function.
\<close>

datatype error = Error string | TypeError

text \<open>
  A computation may raise, return, or not return at all. \<open>None\<close> stands for a call that
  has not returned within the recursion budget it was given.
\<close>

type_synonym 'a res = "(error + 'a) option"

type_synonym state = "(string \<times> val) list"

text \<open>
  The result of \<^verbatim>\<open>regex.exec(source)\<close>: \<open>whole\<close> is \<^verbatim>\<open>capture[0]\<close>, and \<open>grp c i\<close> is
  \<^verbatim>\<open>capture[i]\<close> for \<open>i \<ge> 1\<close>, where \<open>None\<close> is \<^verbatim>\<open>undefined\<close> (a group that took no part
  in the match, or an index past the end of the array).
\<close>

datatype capture = Capture (whole: string) (groups: "string option list")

definition grp :: "capture \<Rightarrow> nat \<Rightarrow> string option" where
  "grp c i = (if 1 \<le> i \<and> i \<le> length (groups c) then groups c ! (i - 1) else None)"

text \<open>
  The parse function as rule builders see it: \<^verbatim>\<open>parse(source, state)\<close>. Both arguments
  may be \<^verbatim>\<open>undefined\<close> (\<open>None\<close>). It returns the array of nodes and the contents of the
  state object it worked on when it returned.
\<close>

type_synonym parsefn = "string option \<Rightarrow> state option \<Rightarrow> (val list \<times> state) res"

type_synonym outfn = "val \<Rightarrow> val res"

text \<open>
  A rule \<^verbatim>\<open>{regex, parse, output}\<close>. The builder \<^verbatim>\<open>parse(capture, parse, state)\<close> returns the
  attributes of the node and the state as the builder left it. \<open>rule_output\<close> is the
  field \<^verbatim>\<open>output\<close>, absent from
  some rules.
\<close>

record rule =
  regex :: "string \<Rightarrow> capture option"
  parse :: "capture \<Rightarrow> parsefn \<Rightarrow> state \<Rightarrow> ((string \<times> val) list \<times> state) res"
  rule_output :: "(val \<Rightarrow> outfn \<Rightarrow> val res) option"

type_synonym rules = "string \<Rightarrow> rule option"

subsection \<open>Underscore helpers\<close>

text \<open>
  \<^verbatim>\<open>_.extend(obj, source)\<close> copies every property of \<^verbatim>\<open>source\<close> to \<^verbatim>\<open>obj\<close>, in the order of
  \<^verbatim>\<open>source\<close>: an existing property keeps its place and takes the new value, a new one is
  appended.
\<close>

fun extend :: "(string \<times> val) list \<Rightarrow> (string \<times> val) list \<Rightarrow> (string \<times> val) list" where
  "extend obj [] = obj"
| "extend obj ((k, v) # source) = extend (AList.update k v obj) source"

text \<open>Reading a property of an object; a missing property reads as \<^verbatim>\<open>undefined\<close>.\<close>

definition get_prop :: "(string \<times> val) list \<Rightarrow> string \<Rightarrow> val" where
  "get_prop obj k = (case map_of obj k of None \<Rightarrow> Undefined | Some v \<Rightarrow> v)"

section \<open>The parser: \<^verbatim>\<open>parserFor\<close>\<close>

text \<open>
  What \<^verbatim>\<open>rules.length\<close> evaluates to. \<^verbatim>\<open>rules\<close> is the rule table, an object keyed by rule
  type, so \<^verbatim>\<open>rules.length\<close> is the rule registered under the name \<^verbatim>\<open>length\<close> when there is
  one and \<^verbatim>\<open>undefined\<close> otherwise; it is never a number.
\<close>

datatype member = MUndefined | MNumber nat | MRule rule

definition rules_length :: "rules \<Rightarrow> member" where
  "rules_length rules = (case rules ''length'' of None \<Rightarrow> MUndefined | Some r \<Rightarrow> MRule r)"

text \<open>\<^verbatim>\<open>i === m\<close> for a number \<open>i\<close>: strict equality holds between equal numbers only.\<close>

fun strict_eq :: "nat \<Rightarrow> member \<Rightarrow> bool" where
  "strict_eq i (MNumber k) = (i = k)"
| "strict_eq i MUndefined = False"
| "strict_eq i (MRule r) = False"

text \<open>
  The inner loop \<^verbatim>\<open>while (i < ruleList.length)\<close> up to its \<^verbatim>\<open>break\<close>: it returns the value
  of \<open>i\<close> on leaving the loop and, when it left through \<^verbatim>\<open>break\<close>, the rule type, the rule
  and the capture. A rule type without an entry in the table makes \<^verbatim>\<open>rule.regex\<close> raise.
\<close>

function firstMatch ::
  "rules \<Rightarrow> string list \<Rightarrow> string \<Rightarrow> nat \<Rightarrow> error + (nat \<times> (string \<times> rule \<times> capture) option)"
where
  "firstMatch rules ruleList source i =
     (if i < length ruleList then
        (let ruleType = ruleList ! i in
         case rules ruleType of
           None \<Rightarrow> Inl TypeError
         | Some rule \<Rightarrow>
             (case regex rule source of
                Some capture \<Rightarrow> Inr (i, Some (ruleType, rule, capture))
              | None \<Rightarrow> firstMatch rules ruleList source (i + 1)))
      else Inr (i, None))"
  by pat_completeness auto
termination
  by (relation "measure (\<lambda>(rules, ruleList, source, i). length ruleList - i)") auto

declare firstMatch.simps [simp del]

text \<open>\<^verbatim>\<open>source || ""\<close> and \<^verbatim>\<open>state || {}\<close>: an absent argument is falsy.\<close>

definition source_or_empty :: "string option \<Rightarrow> string" where
  "source_or_empty source = (case source of None \<Rightarrow> [] | Some s \<Rightarrow> s)"

definition state_or_fresh :: "state option \<Rightarrow> state" where
  "state_or_fresh st = (case st of None \<Rightarrow> [] | Some s \<Rightarrow> s)"

text \<open>
  The outer loop \<^verbatim>\<open>while (source)\<close> of \<^verbatim>\<open>nestedParse\<close>, with \<open>result\<close> the nodes pushed so
  far. The first argument bounds the number of loop iterations along any chain of
  nested calls; each iteration spends one unit, and the builder receives the parser with
  what is left.

  On a match the matched length is cut off the source, the builder runs with the
  capture, the parser and the state, its attributes are laid over \<^verbatim>\<open>{type: ruleType}\<close>,
  and the node is pushed. After the inner loop the test \<^verbatim>\<open>i === rules.length\<close> decides
  whether to throw; otherwise the outer loop goes on.
\<close>

fun parseLoop ::
  "nat \<Rightarrow> rules \<Rightarrow> string list \<Rightarrow> string \<Rightarrow> state \<Rightarrow> val list \<Rightarrow> (val list \<times> state) res"
where
  "parseLoop 0 rules ruleList source st result = None"
| "parseLoop (Suc n) rules ruleList source st result =
     (if source = [] then Some (Inr (result, st))
      else
        case firstMatch rules ruleList source 0 of
          Inl e \<Rightarrow> Some (Inl e)
        | Inr (i, None) \<Rightarrow>
            if strict_eq i (rules_length rules)
            then Some (Inl (Error (''could not find rule to match content: '' @ source)))
            else parseLoop n rules ruleList source st result
        | Inr (i, Some (ruleType, rule, capture)) \<Rightarrow>
            (let source' = drop (length (whole capture)) source in
             case parse rule capture
                    (\<lambda>src s. parseLoop n rules ruleList (source_or_empty src) (state_or_fresh s) [])
                    st of
               None \<Rightarrow> None
             | Some (Inl e) \<Rightarrow> Some (Inl e)
             | Some (Inr (attrs, st')) \<Rightarrow>
                 (let parsed = Obj (extend [(''type'', Str ruleType)] attrs) in
                  if strict_eq i (rules_length rules)
                  then Some (Inl (Error (''could not find rule to match content: '' @ source')))
                  else parseLoop n rules ruleList source' st' (result @ [parsed]))))"

text \<open>\<^verbatim>\<open>nestedParse(source, state)\<close>, the function \<^verbatim>\<open>parserFor(rules, ruleList)\<close> returns.\<close>

definition nestedParse :: "nat \<Rightarrow> rules \<Rightarrow> string list \<Rightarrow> parsefn" where
  "nestedParse n rules ruleList source st =
     parseLoop n rules ruleList (source_or_empty source) (state_or_fresh st) []"

section \<open>The output walker: \<^verbatim>\<open>outputFor\<close> and \<^verbatim>\<open>ruleOutput\<close>\<close>

text \<open>\<^verbatim>\<open>_.isArray(ast)\<close>.\<close>

fun isArray :: "val \<Rightarrow> bool" where
  "isArray (Arr xs) = True"
| "isArray v = False"

fun elements :: "val \<Rightarrow> val list" where
  "elements (Arr xs) = xs"
| "elements v = []"

text \<open>
  \<^verbatim>\<open>_.map(list, f)\<close> for an \<open>f\<close> that may raise or not return: the elements are visited
  in order and the first failure ends the walk.
\<close>

fun mapRes :: "('a \<Rightarrow> 'b res) \<Rightarrow> 'a list \<Rightarrow> 'b list res" where
  "mapRes f [] = Some (Inr [])"
| "mapRes f (x # xs) =
     (case f x of
        None \<Rightarrow> None
      | Some (Inl e) \<Rightarrow> Some (Inl e)
      | Some (Inr y) \<Rightarrow>
          (case mapRes f xs of
             None \<Rightarrow> None
           | Some (Inl e) \<Rightarrow> Some (Inl e)
           | Some (Inr ys) \<Rightarrow> Some (Inr (y # ys))))"

text \<open>
  \<^verbatim>\<open>nestedOutput(ast)\<close> of \<^verbatim>\<open>outputFor(outputFunc)\<close>. The first argument bounds the depth of
  the calls of \<^verbatim>\<open>nestedOutput\<close>, as for the parser.
\<close>

fun nestedOutput :: "nat \<Rightarrow> (val \<Rightarrow> outfn \<Rightarrow> val res) \<Rightarrow> val \<Rightarrow> val res" where
  "nestedOutput 0 outputFunc ast = None"
| "nestedOutput (Suc n) outputFunc ast =
     (if isArray ast then
        (case mapRes (nestedOutput n outputFunc) (elements ast) of
           None \<Rightarrow> None
         | Some (Inl e) \<Rightarrow> Some (Inl e)
         | Some (Inr ys) \<Rightarrow> Some (Inr (Arr ys)))
      else outputFunc ast (nestedOutput n outputFunc))"

text \<open>Decimal digits of a number, for its use as a property name.\<close>

fun digits_of :: "nat \<Rightarrow> string" where
  "digits_of n =
     (if n < 10 then [''0123456789'' ! n]
      else digits_of (n div 10) @ [''0123456789'' ! (n mod 10)])"

declare digits_of.simps [simp del]

fun join_comma :: "string list \<Rightarrow> string" where
  "join_comma [] = []"
| "join_comma [x] = x"
| "join_comma (x # y # ys) = x @ '','' @ join_comma (y # ys)"

text \<open>
  The string a value turns into when it is used as a property name, as in
  \<^verbatim>\<open>rules[ast.type]\<close>.
\<close>

fun toPropertyKey :: "val \<Rightarrow> string" where
  "toPropertyKey Undefined = ''undefined''"
| "toPropertyKey (Bool b) = (if b then ''true'' else ''false'')"
| "toPropertyKey (Num n) = digits_of n"
| "toPropertyKey (Str s) = s"
| "toPropertyKey (Arr xs) =
     join_comma (map (\<lambda>x. if x = Undefined then [] else toPropertyKey x) xs)"
| "toPropertyKey (Obj ps) = ''[object Object]''"

text \<open>
  \<^verbatim>\<open>v.k\<close> for the property names used here (\<^verbatim>\<open>type\<close>, \<^verbatim>\<open>content\<close>): reading a property of
  \<^verbatim>\<open>undefined\<close> raises; a value that is not an object has no such property.
\<close>

fun get_member :: "val \<Rightarrow> string \<Rightarrow> error + val" where
  "get_member Undefined k = Inl TypeError"
| "get_member (Obj ps) k = Inr (get_prop ps k)"
| "get_member v k = Inr Undefined"

text \<open>
  \<^verbatim>\<open>nestedRuleOutput(ast, outputFunc)\<close> of \<^verbatim>\<open>ruleOutput(rules)\<close>:
  \<^verbatim>\<open>rules[ast.type].output(ast, outputFunc)\<close>. There is no test of its own for a missing
  rule or a rule without \<^verbatim>\<open>output\<close>; in both cases the runtime raises.
\<close>

definition ruleOutput :: "rules \<Rightarrow> val \<Rightarrow> outfn \<Rightarrow> val res" where
  "ruleOutput rules ast outputFunc =
     (case get_member ast ''type'' of
        Inl e \<Rightarrow> Some (Inl e)
      | Inr t \<Rightarrow>
          (case rules (toPropertyKey t) of
             None \<Rightarrow> Some (Inl TypeError)
           | Some rule \<Rightarrow>
               (case rule_output rule of
                  None \<Rightarrow> Some (Inl TypeError)
                | Some out \<Rightarrow> out ast outputFunc)))"

section \<open>The patterns of the default rules\<close>

text \<open>
  Each regular expression used below is written out as the function its matching
  computes: the leftmost match, greedy quantifiers taking as much as they can and lazy
  ones as little, alternatives in order. Where a shorter greedy choice could not make a
  later part match, no other choice is tried.
\<close>

definition NL :: char where
  "NL = CHR 0x0A"

definition SP :: char where
  "SP = CHR 0x20"

text \<open>\<^verbatim>\<open>\d\<close> and \<^verbatim>\<open>\s\<close> on one-byte characters.\<close>

definition is_digit :: "char \<Rightarrow> bool" where
  "is_digit c = (c \<in> set ''0123456789'')"

definition is_space :: "char \<Rightarrow> bool" where
  "is_space c = (c \<in> {CHR 0x09, CHR 0x0A, CHR 0x0B, CHR 0x0C, CHR 0x0D, CHR 0x20, CHR 0xA0})"

text \<open>
  \<^verbatim>\<open>LIST_BULLET = (?:[*+-]|\d+\.)\<close> at the start of a string: the bullet and what
  follows it.
\<close>

definition list_bullet :: "string \<Rightarrow> (string \<times> string) option" where
  "list_bullet s =
     (case s of
        [] \<Rightarrow> None
      | c # cs \<Rightarrow>
          if c \<in> set ''*+-'' then Some ([c], cs)
          else
            (let ds = takeWhile is_digit s; r = dropWhile is_digit s in
             if ds \<noteq> [] \<and> take 1 r = ''.'' then Some (ds @ ''.'', drop 1 r) else None))"

text \<open>
  \<^verbatim>\<open>LIST_ITEM_PREFIX = ( *)((?:[*+-]|\d+\.)) \<close> at the start of a string: the leading
  spaces (group 1), the bullet (group 2) and what follows the space after the bullet.
\<close>

definition list_item_prefix :: "string \<Rightarrow> (string \<times> string \<times> string) option" where
  "list_item_prefix s =
     (let sp = takeWhile (\<lambda>c. c = SP) s in
      case list_bullet (dropWhile (\<lambda>c. c = SP) s) of
        None \<Rightarrow> None
      | Some (b, r) \<Rightarrow> if take 1 r = [SP] then Some (sp, b, drop 1 r) else None)"

text \<open>\<^verbatim>\<open>LIST_ITEM_PREFIX_R.exec(s)\<close>, the pattern anchored at the start of \<open>s\<close>.\<close>

definition LIST_ITEM_PREFIX_R_exec :: "string \<Rightarrow> capture option" where
  "LIST_ITEM_PREFIX_R_exec s =
     (case list_item_prefix s of
        None \<Rightarrow> None
      | Some (sp, b, r) \<Rightarrow> Some (Capture (sp @ b @ [SP]) [Some sp, Some b]))"

text \<open>\<^verbatim>\<open>s.replace(LIST_ITEM_PREFIX_R, '')\<close>: the prefix is cut off when it is there.\<close>

definition LIST_ITEM_PREFIX_R_remove :: "string \<Rightarrow> string" where
  "LIST_ITEM_PREFIX_R_remove s =
     (case list_item_prefix s of None \<Rightarrow> s | Some (sp, b, r) \<Rightarrow> r)"

text \<open>
  The lookahead \<^verbatim>\<open>\1(?:[*+-]|\d+\.) \<close> of \<^verbatim>\<open>LIST_ITEM_R\<close> and of the list pattern, with
  \<open>indent\<close> the text of group 1: the indentation, a bullet and a space.
\<close>

definition sibling_bullet :: "string \<Rightarrow> string \<Rightarrow> bool" where
  "sibling_bullet indent s =
     (take (length indent) s = indent \<and>
      (case list_bullet (drop (length indent) s) of
         None \<Rightarrow> False
       | Some (b, r) \<Rightarrow> take 1 r = [SP]))"

text \<open>
  The tail \<^verbatim>\<open>(?:\n(?!\1(?:[*+-]|\d+\.) )[^\n]*)*\<close> of \<^verbatim>\<open>LIST_ITEM_R\<close>: the lines that
  follow and do not start a sibling item. It returns what the tail takes and what is left.
\<close>

function item_lines :: "string \<Rightarrow> string \<Rightarrow> string \<times> string" where
  "item_lines indent s =
     (case s of
        [] \<Rightarrow> ([], [])
      | c # cs \<Rightarrow>
          if c = NL \<and> \<not> sibling_bullet indent cs then
            (let l = takeWhile (\<lambda>c. c \<noteq> NL) cs;
                 (m, r) = item_lines indent (dropWhile (\<lambda>c. c \<noteq> NL) cs)
             in (c # l @ m, r))
          else ([], s))"
  by pat_completeness auto
termination
  by (relation "measure (\<lambda>(indent, s). length s)") (auto simp: length_dropWhile_le less_Suc_eq_le)

declare item_lines.simps [simp del]

text \<open>
  \<^verbatim>\<open>LIST_ITEM_R\<close> tried at the start of a string: the prefix, the rest of the line and the
  lines of the tail. It returns the match and what is left after it.
\<close>

definition list_item_at :: "string \<Rightarrow> (string \<times> string) option" where
  "list_item_at s =
     (case list_item_prefix s of
        None \<Rightarrow> None
      | Some (sp, b, r) \<Rightarrow>
          (let l = takeWhile (\<lambda>c. c \<noteq> NL) r;
               (m, r') = item_lines sp (dropWhile (\<lambda>c. c \<noteq> NL) r)
           in Some (sp @ b @ [SP] @ l @ m, r')))"

lemma list_bullet_shorter: "list_bullet s = Some (b, r) \<Longrightarrow> length r < length s"
proof -
  assume a: "list_bullet s = Some (b, r)"
  have "length (dropWhile is_digit s) \<le> length s" by (rule length_dropWhile_le)
  moreover have "s \<noteq> []" using a by (auto simp: list_bullet_def)
  ultimately show ?thesis using a
    by (cases s) (auto simp: list_bullet_def Let_def split: if_splits)
qed

lemma list_item_prefix_shorter: "list_item_prefix s = Some (sp, b, r) \<Longrightarrow> length r < length s"
proof -
  assume a: "list_item_prefix s = Some (sp, b, r)"
  then obtain r0 where b: "list_bullet (dropWhile (\<lambda>c. c = SP) s) = Some (b, r0)" and r: "r = drop 1 r0"
    by (auto simp: list_item_prefix_def Let_def split: option.splits if_splits)
  have "length r \<le> length r0" using r by simp
  also have "\<dots> < length (dropWhile (\<lambda>c. c = SP) s)" using list_bullet_shorter [OF b] .
  also have "\<dots> \<le> length s" by (rule length_dropWhile_le)
  finally show ?thesis .
qed

lemma item_lines_shorter: "item_lines indent s = (m, r) \<Longrightarrow> length r \<le> length s"
proof (induction indent s arbitrary: m r rule: item_lines.induct)
  case (1 indent s)
  show ?case
  proof (cases s)
    case Nil
    with "1.prems" show ?thesis by (simp add: item_lines.simps)
  next
    case (Cons c cs)
    show ?thesis
    proof (cases "c = NL \<and> \<not> sibling_bullet indent cs")
      case True
      obtain m' r' where rec: "item_lines indent (dropWhile (\<lambda>c. c \<noteq> NL) cs) = (m', r')"
        by (cases "item_lines indent (dropWhile (\<lambda>c. c \<noteq> NL) cs)") auto
      from Cons True rec
      have "item_lines indent s = (c # takeWhile (\<lambda>c. c \<noteq> NL) cs @ m', r')"
        by (subst item_lines.simps) simp
      with "1.prems" have "r = r'" by simp
      moreover have "length r' \<le> length (dropWhile (\<lambda>c. c \<noteq> NL) cs)"
        using "1.IH" [OF Cons True refl rec] .
      moreover have "length (dropWhile (\<lambda>c. c \<noteq> NL) cs) \<le> length cs"
        by (rule length_dropWhile_le)
      ultimately show ?thesis using Cons by simp
    next
      case False
      from Cons False have "item_lines indent s = ([], s)"
        by (subst item_lines.simps) auto
      with "1.prems" show ?thesis by simp
    qed
  qed
qed

lemma list_item_at_shorter: "list_item_at s = Some (m, r) \<Longrightarrow> length r < length s"
proof -
  assume a: "list_item_at s = Some (m, r)"
  then obtain sp b r0 m0 where p: "list_item_prefix s = Some (sp, b, r0)"
    and l: "item_lines sp (dropWhile (\<lambda>c. c \<noteq> NL) r0) = (m0, r)"
    by (auto simp: list_item_at_def Let_def split: option.splits prod.splits)
  have "length r \<le> length (dropWhile (\<lambda>c. c \<noteq> NL) r0)" using item_lines_shorter [OF l] .
  also have "\<dots> \<le> length r0" by (rule length_dropWhile_le)
  also have "\<dots> < length s" using list_item_prefix_shorter [OF p] .
  finally show ?thesis .
qed

text \<open>
  \<^verbatim>\<open>s.match(LIST_ITEM_R)\<close> with the flag \<^verbatim>\<open>g\<close>: every match from left to right, the search
  going on where the last match ended. The pattern has no anchor, so it is tried at
  every position. No match at all gives \<^verbatim>\<open>null\<close>, over which \<^verbatim>\<open>_.map\<close> runs as over an
  empty array.
\<close>

function LIST_ITEM_R_match :: "string \<Rightarrow> string list" where
  "LIST_ITEM_R_match s =
     (case s of
        [] \<Rightarrow> []
      | c # cs \<Rightarrow>
          (case list_item_at s of
             Some (m, r) \<Rightarrow> m # LIST_ITEM_R_match r
           | None \<Rightarrow> LIST_ITEM_R_match cs))"
  by pat_completeness auto
termination LIST_ITEM_R_match
  by (relation "measure length") (auto dest: list_item_at_shorter)

declare LIST_ITEM_R_match.simps [simp del]

text \<open>
  \<^verbatim>\<open>s.replace(new RegExp("^ {1," + space + "}", "gm"), '')\<close>: at the start of every line,
  up to \<open>space\<close> leading spaces are removed. With the flag \<^verbatim>\<open>m\<close> a line starts at the
  start of the string and after a line feed or a carriage return.
\<close>

definition strip_indent :: "nat \<Rightarrow> string \<Rightarrow> string" where
  "strip_indent space s = drop (min space (length (takeWhile (\<lambda>c. c = SP) s))) s"

function unindent_lines :: "nat \<Rightarrow> string \<Rightarrow> string" where
  "unindent_lines space [] = []"
| "unindent_lines space (c # cs) =
     (if c = NL \<or> c = CHR 0x0D then c # unindent_lines space (strip_indent space cs)
      else c # unindent_lines space cs)"
  by pat_completeness auto
termination
  by (relation "measure (\<lambda>(space, s). length s)") (auto simp: strip_indent_def)

definition spaceRegex_remove :: "nat \<Rightarrow> string \<Rightarrow> string" where
  "spaceRegex_remove space s = unindent_lines space (strip_indent space s)"

text \<open>
  \<^verbatim>\<open>LIST_BLOCK_END_R = /\n{2,}$/\<close>. \<^verbatim>\<open>s.search(LIST_BLOCK_END_R)\<close> is the leftmost position
  from which only line feeds follow, two or more, up to the end of the string
  (\<open>None\<close> is \<^verbatim>\<open>-1\<close>).
\<close>

fun LIST_BLOCK_END_R_search :: "string \<Rightarrow> nat option" where
  "LIST_BLOCK_END_R_search [] = None"
| "LIST_BLOCK_END_R_search (c # cs) =
     (if 2 \<le> length (c # cs) \<and> (\<forall>x \<in> set (c # cs). x = NL) then Some 0
      else map_option Suc (LIST_BLOCK_END_R_search cs))"

text \<open>\<^verbatim>\<open>s.replace(LIST_BLOCK_END_R, '')\<close>: the match reaches the end, so the rest is cut.\<close>

definition LIST_BLOCK_END_R_remove :: "string \<Rightarrow> string" where
  "LIST_BLOCK_END_R_remove s =
     (case LIST_BLOCK_END_R_search s of None \<Rightarrow> s | Some p \<Rightarrow> take p s)"

text \<open>
  The end of the list pattern, \<^verbatim>\<open>(?:\n{2,}(?! )(?!\1(?:[*+-]|\d+\.) )\n*|\s*$)\<close>, tried at
  the start of a string; it returns what it takes. First alternative: a run of two or
  more line feeds. Taken whole, the run must not be followed by a space nor by a sibling
  bullet; a run of three or more also matches by giving one line feed back, since a line
  feed is neither, and \<^verbatim>\<open>\n*\<close> then takes it again. Second alternative: white space up to
  the end of the string.
\<close>

definition list_end :: "string \<Rightarrow> string \<Rightarrow> string option" where
  "list_end indent s =
     (let nls = takeWhile (\<lambda>c. c = NL) s; after = dropWhile (\<lambda>c. c = NL) s in
      if 2 \<le> length nls \<and>
         ((take 1 after \<noteq> [SP] \<and> \<not> sibling_bullet indent after) \<or> 3 \<le> length nls)
      then Some nls
      else if \<forall>c \<in> set s. is_space c then Some s
      else None)"

text \<open>
  \<^verbatim>\<open>[\s\S]+?\<close> followed by the end of the list pattern, after the first character that
  \<^verbatim>\<open>+\<close> demands: characters are taken one at a time until the end matches.
\<close>

fun list_body :: "string \<Rightarrow> string \<Rightarrow> string" where
  "list_body indent [] = []"
| "list_body indent (c # cs) =
     (case list_end indent (c # cs) of
        Some e \<Rightarrow> e
      | None \<Rightarrow> c # list_body indent cs)"

text \<open>
  The pattern of the rule \<^verbatim>\<open>list\<close>:
  \<^verbatim>\<open>^( *)((?:[*+-]|\d+\.)) [\s\S]+?(?:\n{2,}(?! )(?!\1(?:[*+-]|\d+\.) )\n*|\s*$)\<close>.
\<close>

definition list_regex :: "string \<Rightarrow> capture option" where
  "list_regex s =
     (case list_item_prefix s of
        None \<Rightarrow> None
      | Some (sp, b, r) \<Rightarrow>
          (case r of
             [] \<Rightarrow> None
           | c # cs \<Rightarrow> Some (Capture (sp @ b @ [SP] @ c # list_body sp cs) [Some sp, Some b])))"

text \<open>
  The pattern of the rule \<^verbatim>\<open>lheading\<close>: \<^verbatim>\<open>^([^\n]+)\n *(=|-){3,} *\n+\<close>. Group 2 holds
  the last character of the underline.
\<close>

definition lheading_regex :: "string \<Rightarrow> capture option" where
  "lheading_regex s =
     (let title = takeWhile (\<lambda>c. c \<noteq> NL) s;
          r1 = drop 1 (dropWhile (\<lambda>c. c \<noteq> NL) s);
          sp1 = takeWhile (\<lambda>c. c = SP) r1;
          r2 = dropWhile (\<lambda>c. c = SP) r1;
          line = takeWhile (\<lambda>c. c = CHR ''='' \<or> c = CHR ''-'') r2;
          r3 = dropWhile (\<lambda>c. c = CHR ''='' \<or> c = CHR ''-'') r2;
          sp2 = takeWhile (\<lambda>c. c = SP) r3;
          nls = takeWhile (\<lambda>c. c = NL) (dropWhile (\<lambda>c. c = SP) r3)
      in if title \<noteq> [] \<and> take 1 (dropWhile (\<lambda>c. c \<noteq> NL) s) = [NL] \<and>
            3 \<le> length line \<and> nls \<noteq> []
         then Some (Capture (title @ [NL] @ sp1 @ line @ sp2 @ nls) [Some title, Some [last line]])
         else None)"

text \<open>The pattern of the rule \<^verbatim>\<open>newline\<close>: \<^verbatim>\<open>^\n+\<close>.\<close>

definition newline_regex :: "string \<Rightarrow> capture option" where
  "newline_regex s =
     (let nls = takeWhile (\<lambda>c. c = NL) s in
      if nls \<noteq> [] then Some (Capture nls []) else None)"

text \<open>
  The lookahead of the rule \<^verbatim>\<open>text\<close>, \<^verbatim>\<open>(?=[...]|\n\n| {2,}\n|$)\<close>, whose character class
  holds the backslash and \<^verbatim>\<open><\<close>, \<^verbatim>\<open>!\<close>, \<^verbatim>\<open>[\<close>, \<^verbatim>\<open>_\<close>, \<^verbatim>\<open>*\<close> and the backquote: one of
  the characters that may open another rule, a blank line, two or more spaces before a
  line feed, or the end of the string.
\<close>

definition text_stop :: "string \<Rightarrow> bool" where
  "text_stop s =
     (take 1 s \<in> {[CHR 0x5C], ''<'', ''!'', ''['', ''_'', ''*'', [CHR 0x60]} \<or>
      take 2 s = [NL, NL] \<or>
      (2 \<le> length (takeWhile (\<lambda>c. c = SP) s) \<and> take 1 (dropWhile (\<lambda>c. c = SP) s) = [NL]) \<or>
      s = [])"

text \<open>\<^verbatim>\<open>[\s\S]+?\<close> before that lookahead, after its first character.\<close>

fun text_body :: "string \<Rightarrow> string" where
  "text_body [] = []"
| "text_body (c # cs) = (if text_stop (c # cs) then [] else c # text_body cs)"

text \<open>The pattern of the rule \<^verbatim>\<open>text\<close>: \<^verbatim>\<open>^[\s\S]+?\<close> followed by that lookahead.\<close>

definition text_regex :: "string \<Rightarrow> capture option" where
  "text_regex s = (case s of [] \<Rightarrow> None | c # cs \<Rightarrow> Some (Capture (c # text_body cs) []))"

section \<open>The builders of the default rules\<close>

text \<open>In the builders, \<open>parse'\<close> is the parameter \<^verbatim>\<open>parse\<close>, the parser handed in.\<close>


text \<open>\<^verbatim>\<open>ignoreCapture\<close>: the empty object.\<close>

definition ignoreCapture ::
  "capture \<Rightarrow> parsefn \<Rightarrow> state \<Rightarrow> ((string \<times> val) list \<times> state) res"
where
  "ignoreCapture capture parse' st = Some (Inr ([], st))"

text \<open>
  \<^verbatim>\<open>defaultRules.lheading.parse\<close>:
  \<^verbatim>\<open>{type: "heading", level: capture[2] === '=' ? 1 : 2, content: parse(capture[1], state)}\<close>.
\<close>

definition lheading_parse ::
  "capture \<Rightarrow> parsefn \<Rightarrow> state \<Rightarrow> ((string \<times> val) list \<times> state) res"
where
  "lheading_parse capture parse' st =
     (case parse' (grp capture 1) (Some st) of
        None \<Rightarrow> None
      | Some (Inl e) \<Rightarrow> Some (Inl e)
      | Some (Inr (nodes, st')) \<Rightarrow>
          Some (Inr ([(''type'', Str ''heading''),
                      (''level'', Num (if grp capture 2 = Some ''='' then 1 else 2)),
                      (''content'', Arr nodes)], st')))"











text \<open>\<^verbatim>\<open>defaultRules.text.parse\<close>: \<^verbatim>\<open>{content: capture[0]}\<close>.\<close>

definition text_parse ::
  "capture \<Rightarrow> parsefn \<Rightarrow> state \<Rightarrow> ((string \<times> val) list \<times> state) res"
where
  "text_parse capture parse' st = Some (Inr ([(''content'', Str (whole capture))], st))"

subsection \<open>The builder of the rule \<^verbatim>\<open>list\<close>\<close>

text \<open>
  The first part of the function mapped over the items: the value of \<^verbatim>\<open>content\<close> before
  the test on the index. The width of the item's prefix is measured, the line feed is
  appended, every line loses up to that many leading spaces, and the prefix is cut off.
  An item on which \<^verbatim>\<open>LIST_ITEM_PREFIX_R.exec\<close> gives \<^verbatim>\<open>null\<close> makes \<^verbatim>\<open>[0]\<close> raise.
\<close>

definition item_dedent :: "string \<Rightarrow> error + string" where
  "item_dedent item =
     (case LIST_ITEM_PREFIX_R_exec item of
        None \<Rightarrow> Inl TypeError
      | Some m \<Rightarrow>
          (let space = length (whole m)
           in Inr (LIST_ITEM_PREFIX_R_remove (spaceRegex_remove space (item @ [NL])))))"

text \<open>
  The rest of that function up to its \<^verbatim>\<open>return\<close>: from the number of items \<open>n\<close>, the
  index \<open>i\<close>, the item and the variable \<^verbatim>\<open>lastItemWasAParagraph\<close> it gives the new value
  of that variable and the content to parse. \<^verbatim>\<open>i === items.length - 2\<close> is \<open>i + 2 = n\<close> and
  \<^verbatim>\<open>i === items.length - 1\<close> is \<open>i + 1 = n\<close>.
\<close>

definition item_content :: "nat \<Rightarrow> nat \<Rightarrow> string \<Rightarrow> bool \<Rightarrow> error + (bool \<times> string)" where
  "item_content n i item lastItemWasAParagraph =
     (case item_dedent item of
        Inl e \<Rightarrow> Inl e
      | Inr content \<Rightarrow>
          if i + 2 = n then Inr (LIST_BLOCK_END_R_search content \<noteq> None, content)
          else if i + 1 = n then
            (if \<not> lastItemWasAParagraph
             then Inr (lastItemWasAParagraph, LIST_BLOCK_END_R_remove content)
             else Inr (lastItemWasAParagraph, content))
          else Inr (lastItemWasAParagraph, content))"

text \<open>
  \<^verbatim>\<open>_.map(items, (item, i) => ...)\<close>: the items from index \<open>i\<close> on, each content parsed with
  the state the last parse left.
\<close>

fun list_items ::
  "parsefn \<Rightarrow> nat \<Rightarrow> nat \<Rightarrow> string list \<Rightarrow> bool \<Rightarrow> state \<Rightarrow> (val list \<times> state) res"
where
  "list_items parse' n i [] lastItemWasAParagraph st = Some (Inr ([], st))"
| "list_items parse' n i (item # rest) lastItemWasAParagraph st =
     (case item_content n i item lastItemWasAParagraph of
        Inl e \<Rightarrow> Some (Inl e)
      | Inr (flag, content) \<Rightarrow>
          (case parse' (Some content) (Some st) of
             None \<Rightarrow> None
           | Some (Inl e) \<Rightarrow> Some (Inl e)
           | Some (Inr (nodes, st')) \<Rightarrow>
               (case list_items parse' n (i + 1) rest flag st' of
                  None \<Rightarrow> None
                | Some (Inl e) \<Rightarrow> Some (Inl e)
                | Some (Inr (others, st'')) \<Rightarrow> Some (Inr (Arr nodes # others, st'')))))"

text \<open>
  \<^verbatim>\<open>defaultRules.list.parse\<close>. \<^verbatim>\<open>bullet.length\<close> raises when group 2 is \<^verbatim>\<open>undefined\<close>.
\<close>

definition list_parse ::
  "capture \<Rightarrow> parsefn \<Rightarrow> state \<Rightarrow> ((string \<times> val) list \<times> state) res"
where
  "list_parse capture parse' st =
     (case grp capture 2 of
        None \<Rightarrow> Some (Inl TypeError)
      | Some bullet \<Rightarrow>
          (let ordered = (1 < length bullet);
               items = LIST_ITEM_R_match (whole capture)
           in case list_items parse' (length items) 0 items False st of
                None \<Rightarrow> None
              | Some (Inl e) \<Rightarrow> Some (Inl e)
              | Some (Inr (itemContent, st')) \<Rightarrow>
                  Some (Inr ([(''ordered'', Bool ordered), (''items'', Arr itemContent)], st'))))"

subsection \<open>The list builder in the words of its description\<close>

text \<open>
  A content ends a paragraph block when it ends with two or more line feeds, and
  stripping removes such a run as a whole. These two follow the description of loose and
  tight lists; they are compared with \<open>LIST_BLOCK_END_R_search\<close> and
  \<open>LIST_BLOCK_END_R_remove\<close> below. \<open>parse_each\<close> parses a sequence of contents in
  order, each with the state the one before left, and collects the arrays of nodes.
  \<open>dedented\<close> is the content \<open>item_dedent\<close> gives for an item.
\<close>

definition ends_in_blank_lines :: "string \<Rightarrow> bool" where
  "ends_in_blank_lines s = (2 \<le> length (takeWhile (\<lambda>c. c = NL) (rev s)))"

definition strip_blank_lines :: "string \<Rightarrow> string" where
  "strip_blank_lines s =
     (if ends_in_blank_lines s then rev (dropWhile (\<lambda>c. c = NL) (rev s)) else s)"

fun parse_each :: "parsefn \<Rightarrow> string list \<Rightarrow> state \<Rightarrow> (val list \<times> state) res" where
  "parse_each parse' [] st = Some (Inr ([], st))"
| "parse_each parse' (content # rest) st =
     (case parse' (Some content) (Some st) of
        None \<Rightarrow> None
      | Some (Inl e) \<Rightarrow> Some (Inl e)
      | Some (Inr (nodes, st')) \<Rightarrow>
          (case parse_each parse' rest st' of
             None \<Rightarrow> None
           | Some (Inl e) \<Rightarrow> Some (Inl e)
           | Some (Inr (others, st'')) \<Rightarrow> Some (Inr (Arr nodes # others, st''))))"

definition dedented :: "string \<Rightarrow> string" where
  "dedented item = (case item_dedent item of Inl e \<Rightarrow> [] | Inr content \<Rightarrow> content)"

subsection \<open>Builders that hand their state on\<close>




section \<open>Rule tables\<close>

text \<open>
  Three of the default rules with their patterns, builders and output functions:
  \<^verbatim>\<open>lheading\<close> (no \<^verbatim>\<open>output\<close>), \<^verbatim>\<open>newline\<close> (\<^verbatim>\<open>output\<close> gives a space) and \<^verbatim>\<open>text\<close>
  (\<^verbatim>\<open>output\<close> gives \<^verbatim>\<open>node.content\<close>).
\<close>

definition lheading_rule :: rule where
  "lheading_rule = \<lparr>regex = lheading_regex, parse = lheading_parse, rule_output = None\<rparr>"

definition newline_rule :: rule where
  "newline_rule =
     \<lparr>regex = newline_regex, parse = ignoreCapture,
      rule_output = Some (\<lambda>node out. Some (Inr (Str '' '')))\<rparr>"

definition text_rule :: rule where
  "text_rule =
     \<lparr>regex = text_regex, parse = text_parse,
      rule_output = Some (\<lambda>node out.
        case get_member node ''content'' of Inl e \<Rightarrow> Some (Inl e) | Inr v \<Rightarrow> Some (Inr v))\<rparr>"

text \<open>
  A table of these three in the order of \<^verbatim>\<open>defaultRules\<close>, and the same table without
  the catch-all \<^verbatim>\<open>text\<close>.
\<close>

definition someRules :: rules where
  "someRules =
     [''lheading'' \<mapsto> lheading_rule, ''newline'' \<mapsto> newline_rule, ''text'' \<mapsto> text_rule]"

definition somePriorities :: "string list" where
  "somePriorities = [''lheading'', ''newline'', ''text'']"

definition noTextRules :: rules where
  "noTextRules = [''lheading'' \<mapsto> lheading_rule, ''newline'' \<mapsto> newline_rule]"

definition noTextPriorities :: "string list" where
  "noTextPriorities = [''lheading'', ''newline'']"

text \<open>A heading in the underlined form, followed by a character of text.\<close>

definition headingSource :: string where
  "headingSource = ''T'' @ [NL] @ ''==='' @ [NL] @ ''x''"

text \<open>Nodes as the parser builds them, and a node tagged with the name of a rule.\<close>

definition textNode :: val where
  "textNode = Obj [(''type'', Str ''text''), (''content'', Str ''x'')]"

definition newlineNode :: val where
  "newlineNode = Obj [(''type'', Str ''newline'')]"

definition headingNode :: val where
  "headingNode = Obj [(''type'', Str ''heading''), (''level'', Num 1), (''content'', Arr [textNode])]"

definition lheadingNode :: val where
  "lheadingNode = Obj [(''type'', Str ''lheading''), (''content'', Arr [textNode])]"

lemmas node_defs = textNode_def newlineNode_def headingNode_def lheadingNode_def

text \<open>
  List blocks: two items without a blank line between them, two items each followed by a
  blank line, one item followed by a blank line, and a numbered item. \<open>textOf s\<close> is the
  node the rule \<^verbatim>\<open>text\<close> builds for \<open>s\<close>.
\<close>

definition tightSource :: string where
  "tightSource = ''* a'' @ [NL] @ ''* b'' @ [NL]"

definition looseSource :: string where
  "looseSource = ''* a'' @ [NL, NL] @ ''* b'' @ [NL, NL]"

definition singleSource :: string where
  "singleSource = ''* a'' @ [NL, NL]"

definition orderedSource :: string where
  "orderedSource = ''1. a'' @ [NL]"

definition textOf :: "string \<Rightarrow> val" where
  "textOf s = Obj [(''type'', Str ''text''), (''content'', Str s)]"

text \<open>
  A rule a host may register: the pattern of \<^verbatim>\<open>text\<close> with the builder
  \<^verbatim>\<open>(capture, parse, state) => ({content: parse(capture[0], state)})\<close>, which parses the
  whole of its own match again.
\<close>

definition reparse_parse ::
  "capture \<Rightarrow> parsefn \<Rightarrow> state \<Rightarrow> ((string \<times> val) list \<times> state) res"
where
  "reparse_parse capture parse' st =
     (case parse' (Some (whole capture)) (Some st) of
        None \<Rightarrow> None
      | Some (Inl e) \<Rightarrow> Some (Inl e)
      | Some (Inr (nodes, st')) \<Rightarrow> Some (Inr ([(''content'', Arr nodes)], st')))"

definition reparse_rule :: rule where
  "reparse_rule = \<lparr>regex = text_regex, parse = reparse_parse, rule_output = None\<rparr>"

definition reparseRules :: rules where
  "reparseRules = [''text'' \<mapsto> reparse_rule]"









section \<open>The parsing loop\<close>

lemma strict_eq_rules_length [simp]: "strict_eq i (rules_length rules) = False"
  by (simp add: rules_length_def split: option.split)

lemma nestedParse_eq:
  "(\<lambda>src s. parseLoop n rules ruleList (source_or_empty src) (state_or_fresh s) []) =
   nestedParse n rules ruleList"
  by (rule ext, rule ext) (simp add: nestedParse_def)

text \<open>
  An iteration in which no rule matched leaves \<open>source\<close> as it was, and the test after the
  inner loop never holds: the loop comes back to the same source, whatever its budget.
\<close>

lemma parseLoop_no_match:
  "firstMatch rules ruleList source 0 = Inr (i, None) \<Longrightarrow> source \<noteq> [] \<Longrightarrow>
   parseLoop n rules ruleList source st result = None"
  by (induction n) simp_all

text \<open>An iteration in which a rule matched.\<close>

lemma parseLoop_match:
  "firstMatch rules ruleList source 0 = Inr (i, Some (ruleType, rule, capture)) \<Longrightarrow>
   source \<noteq> [] \<Longrightarrow>
   parseLoop (Suc n) rules ruleList source st result =
     (case parse rule capture (nestedParse n rules ruleList) st of
        None \<Rightarrow> None
      | Some (Inl e) \<Rightarrow> Some (Inl e)
      | Some (Inr (attrs, st')) \<Rightarrow>
          parseLoop n rules ruleList (drop (length (whole capture)) source) st'
            (result @ [Obj (extend [(''type'', Str ruleType)] attrs)]))"
  by (simp add: nestedParse_eq Let_def split: option.splits sum.splits prod.splits)

subsection \<open>The inner loop\<close>

lemma firstMatch_Some:
  "firstMatch rules ruleList source i = Inr (k, Some (t, r, c)) \<Longrightarrow>
   i \<le> k \<and> k < length ruleList \<and> t = ruleList ! k \<and> rules t = Some r \<and>
   regex r source = Some c \<and>
   (\<forall>m. i \<le> m \<and> m < k \<longrightarrow> (\<exists>rm. rules (ruleList ! m) = Some rm \<and> regex rm source = None))"
proof (induction rules ruleList source i rule: firstMatch.induct)
  case (1 rules ruleList source i)
  show ?case
  proof (cases "i < length ruleList")
    case False
    with "1.prems" show ?thesis by (simp add: firstMatch.simps [of rules ruleList source i])
  next
    case len: True
    show ?thesis
    proof (cases "rules (ruleList ! i)")
      case None
      with "1.prems" len show ?thesis by (simp add: firstMatch.simps [of rules ruleList source i])
    next
      case (Some rule)
      show ?thesis
      proof (cases "regex rule source")
        case (Some capture)
        with "1.prems" len \<open>rules (ruleList ! i) = Some rule\<close> show ?thesis
          by (auto simp: firstMatch.simps [of rules ruleList source i])
      next
        case None
        with "1.prems" len \<open>rules (ruleList ! i) = Some rule\<close>
        have rec: "firstMatch rules ruleList source (i + 1) = Inr (k, Some (t, r, c))"
          by (simp add: firstMatch.simps [of rules ruleList source i])
        note ih = "1.IH" [OF len refl \<open>rules (ruleList ! i) = Some rule\<close> None rec]
        have "\<exists>rm. rules (ruleList ! m) = Some rm \<and> regex rm source = None"
          if "i \<le> m" "m < k" for m
        proof (cases "m = i")
          case True
          with \<open>rules (ruleList ! i) = Some rule\<close> None show ?thesis by simp
        next
          case False
          with that ih show ?thesis by simp
        qed
        with ih show ?thesis by auto
      qed
    qed
  qed
qed

lemma firstMatch_skip:
  "i < length ruleList \<Longrightarrow> rules (ruleList ! i) = Some rule \<Longrightarrow> regex rule source = None \<Longrightarrow>
   firstMatch rules ruleList source i = firstMatch rules ruleList source (Suc i)"
  by (simp add: firstMatch.simps [of rules ruleList source i])

lemma firstMatch_hit:
  "i < length ruleList \<Longrightarrow> rules (ruleList ! i) = Some rule \<Longrightarrow> regex rule source = Some c \<Longrightarrow>
   firstMatch rules ruleList source i = Inr (i, Some (ruleList ! i, rule, c))"
  by (simp add: firstMatch.simps [of rules ruleList source i])

text \<open>
  When a rule at \<open>j\<close> matches and the table has every rule listed from \<open>i\<close> up to it, the
  inner loop started at \<open>i\<close> stops at a match, at \<open>j\<close> or before.
\<close>

lemma firstMatch_finds:
  "i \<le> j \<Longrightarrow> j < length ruleList \<Longrightarrow> rules (ruleList ! j) = Some rj \<Longrightarrow>
   regex rj source = Some cj \<Longrightarrow>
   (\<forall>m. i \<le> m \<and> m < j \<longrightarrow> rules (ruleList ! m) \<noteq> None) \<Longrightarrow>
   \<exists>k r c. k \<le> j \<and> firstMatch rules ruleList source i = Inr (k, Some (ruleList ! k, r, c))"
proof (induction "j - i" arbitrary: i)
  case 0
  then have "i = j" by simp
  with 0 show ?case by (auto simp: firstMatch_hit)
next
  case (Suc d)
  then have lt: "i < j" by simp
  then have len: "i < length ruleList" using Suc.prems by simp
  from Suc.prems lt obtain ri where ri: "rules (ruleList ! i) = Some ri" by auto
  show ?case
  proof (cases "regex ri source")
    case (Some c)
    with len ri lt show ?thesis by (auto simp: firstMatch_hit intro!: exI [of _ i])
  next
    case None
    have "\<exists>k r c. k \<le> j \<and> firstMatch rules ruleList source (Suc i) = Inr (k, Some (ruleList ! k, r, c))"
      using Suc.hyps(1) [of "Suc i"] Suc.hyps(2) Suc.prems lt by auto
    moreover have "firstMatch rules ruleList source i = firstMatch rules ruleList source (Suc i)"
      using len ri None by (rule firstMatch_skip)
    ultimately show ?thesis by simp
  qed
qed

subsection \<open>Nodes and their type\<close>

lemma map_of_extend:
  "distinct (map fst src) \<Longrightarrow> map_of (extend obj src) = map_of obj ++ map_of src"
proof (induction src arbitrary: obj)
  case Nil
  then show ?case by simp
next
  case (Cons p src)
  obtain k v where p: "p = (k, v)" by (cases p)
  from Cons.prems p have k: "map_of src k = None" and d: "distinct (map fst src)"
    by (auto simp: map_of_eq_None_iff)
  have "map_of (extend obj (p # src)) = map_of (extend (AList.update k v obj) src)"
    using p by simp
  also have "\<dots> = map_of (AList.update k v obj) ++ map_of src"
    by (rule Cons.IH [OF d])
  also have "\<dots> = (map_of obj)(k \<mapsto> v) ++ map_of src"
    by (simp only: update_conv')
  also have "\<dots> = map_of obj ++ map_of (p # src)"
    using k p by (auto simp: map_add_def fun_eq_iff split: option.splits)
  finally show ?case .
qed

lemma get_prop_extend_type:
  "distinct (map fst attrs) \<Longrightarrow>
   get_prop (extend [(''type'', Str ruleType)] attrs) ''type'' =
     (case map_of attrs ''type'' of Some v \<Rightarrow> v | None \<Rightarrow> Str ruleType)"
  by (simp add: get_prop_def map_of_extend map_add_def split: option.splits)

lemma parseLoop_prefix:
  "parseLoop n rules ruleList source st result = Some (Inr (nodes, st')) \<Longrightarrow>
   \<exists>new. nodes = result @ new"
proof (induction n arbitrary: source st result)
  case 0
  then show ?case by simp
next
  case (Suc n)
  show ?case
  proof (cases "source = []")
    case True
    with Suc.prems show ?thesis by simp
  next
    case False
    show ?thesis
    proof (cases "firstMatch rules ruleList source 0")
      case (Inl e)
      with Suc.prems False show ?thesis by simp
    next
      case (Inr p)
      obtain i m where p: "p = (i, m)" by (cases p)
      show ?thesis
      proof (cases m)
        case None
        with Inr p False Suc.prems show ?thesis by (simp add: parseLoop_no_match)
      next
        case (Some q)
        obtain ruleType rule capture where q: "q = (ruleType, rule, capture)" by (cases q)
        note step = parseLoop_match [of rules ruleList source i ruleType rule capture n st result]
        from Inr p Some q False Suc.prems step
        obtain attrs s1 where "parseLoop n rules ruleList (drop (length (whole capture)) source) s1
            (result @ [Obj (extend [(''type'', Str ruleType)] attrs)]) = Some (Inr (nodes, st'))"
          by (auto split: option.splits sum.splits prod.splits)
        from Suc.IH [OF this] show ?thesis by auto
      qed
    qed
  qed
qed

lemma firstMatch_noText: "firstMatch noTextRules noTextPriorities ''???'' 0 = Inr (2, None)"
  by (simp add: firstMatch.simps noTextRules_def noTextPriorities_def lheading_rule_def
      newline_rule_def lheading_regex_def newline_regex_def NL_def SP_def Let_def)

text \<open>
  C1. On a remaining input that no rule of the priority list matches, the parser is
  meant to raise an error that carries the remainder. The table \<open>noTextRules\<close> has no
  catch-all rule and none of its rules matches \<^verbatim>\<open>???\<close>. The parser does not raise there, and
  does not return: within every budget \<open>n\<close>, and from every state, the call has no
  result. The test that guards the \<^verbatim>\<open>throw\<close> compares the index with \<^verbatim>\<open>rules.length\<close>, the
  property \<^verbatim>\<open>length\<close> of the rule table, which is not a number.
\<close>

theorem no_rule_matched_never_raised:
  "nestedParse n noTextRules noTextPriorities (Some ''???'') st = None"
  unfolding nestedParse_def source_or_empty_def
  by (simp add: parseLoop_no_match [OF firstMatch_noText])

lemmas rule_defs =
  someRules_def somePriorities_def lheading_rule_def newline_rule_def text_rule_def
  lheading_regex_def newline_regex_def text_regex_def text_stop_def
  lheading_parse_def ignoreCapture_def text_parse_def grp_def NL_def SP_def

text \<open>
  C3. Let the rules at positions \<open>i < j\<close> of the priority list both match the remaining
  input (and let the table hold the rules listed before \<open>i\<close>). Then the iteration applies
  the rule at some position \<open>k \<le> i\<close>, the first in the list whose pattern matches: every
  rule before \<open>k\<close> was tried and failed, none after \<open>k\<close> is consulted, and the node pushed
  is built from the capture and the builder of the rule at \<open>k\<close> alone. Neither the length
  of the match nor the rule at \<open>j\<close> has a part in it.
\<close>

theorem first_match_in_priority_order_wins:
  assumes "i < j" and "j < length ruleList"
    and "\<forall>m<i. rules (ruleList ! m) \<noteq> None"
    and "rules (ruleList ! i) = Some ri" and "regex ri source = Some ci"
    and "rules (ruleList ! j) = Some rj" and "regex rj source = Some cj"
    and "source \<noteq> []"
  shows "\<exists>k r c. k \<le> i \<and> rules (ruleList ! k) = Some r \<and> regex r source = Some c \<and>
           (\<forall>m<k. \<exists>rm. rules (ruleList ! m) = Some rm \<and> regex rm source = None) \<and>
           parseLoop (Suc n) rules ruleList source st result =
             (case parse r c (nestedParse n rules ruleList) st of
                None \<Rightarrow> None
              | Some (Inl e) \<Rightarrow> Some (Inl e)
              | Some (Inr (attrs, st')) \<Rightarrow>
                  parseLoop n rules ruleList (drop (length (whole c)) source) st'
                    (result @ [Obj (extend [(''type'', Str (ruleList ! k))] attrs)]))"
proof -
  have "i < length ruleList" using assms(1,2) by simp
  with assms obtain k r c where k: "k \<le> i"
    and fm: "firstMatch rules ruleList source 0 = Inr (k, Some (ruleList ! k, r, c))"
    using firstMatch_finds [of 0 i ruleList rules ri source ci] by auto
  from firstMatch_Some [OF fm] have "rules (ruleList ! k) = Some r" "regex r source = Some c"
    "\<forall>m<k. \<exists>rm. rules (ruleList ! m) = Some rm \<and> regex rm source = None"
    by auto
  with k parseLoop_match [OF fm assms(8)] show ?thesis by blast
qed


theorem first_match_in_priority_order_wins_witness:
  "regex newline_rule (NL # ''a'') = Some (Capture [NL] []) \<and>
   regex text_rule (NL # ''a'') = Some (Capture (NL # ''a'') []) \<and>
   (\<exists>k r c. k \<le> 1 \<and> someRules (somePriorities ! k) = Some r \<and> regex r (NL # ''a'') = Some c \<and>
      (\<forall>m<k. \<exists>rm. someRules (somePriorities ! m) = Some rm \<and> regex rm (NL # ''a'') = None) \<and>
      parseLoop (Suc 2) someRules somePriorities (NL # ''a'') [] [] =
        (case parse r c (nestedParse 2 someRules somePriorities) [] of
           None \<Rightarrow> None
         | Some (Inl e) \<Rightarrow> Some (Inl e)
         | Some (Inr (attrs, st')) \<Rightarrow>
             parseLoop 2 someRules somePriorities (drop (length (whole c)) (NL # ''a'')) st'
               ([] @ [Obj (extend [(''type'', Str (somePriorities ! k))] attrs)]))) \<and>
   parseLoop (Suc 2) someRules somePriorities (NL # ''a'') [] [] =
     Some (Inr ([Obj [(''type'', Str ''newline'')],
                 Obj [(''type'', Str ''text''), (''content'', Str ''a'')]], []))"
proof -
  have h1: "(1::nat) < 2" by simp
  have h2: "2 < length somePriorities" by (simp add: somePriorities_def)
  have h3: "\<forall>m<1. someRules (somePriorities ! m) \<noteq> None" by (simp add: rule_defs)
  have h4: "someRules (somePriorities ! 1) = Some newline_rule" by (simp add: rule_defs)
  have h5: "regex newline_rule (NL # ''a'') = Some (Capture [NL] [])" by (simp add: rule_defs)
  have h6: "someRules (somePriorities ! 2) = Some text_rule" by (simp add: rule_defs)
  have h7: "regex text_rule (NL # ''a'') = Some (Capture (NL # ''a'') [])" by (simp add: rule_defs)
  have h8: "NL # ''a'' \<noteq> []" by simp
  note w = first_match_in_priority_order_wins [OF h1 h2 h3 h4 h5 h6 h7 h8, of 2 "[]" "[]"]
  have run: "parseLoop (Suc 2) someRules somePriorities (NL # ''a'') [] [] =
     Some (Inr ([Obj [(''type'', Str ''newline'')],
                 Obj [(''type'', Str ''text''), (''content'', Str ''a'')]], []))"
    by (simp add: firstMatch.simps rule_defs source_or_empty_def state_or_fresh_def
        numeral_2_eq_2)
  from w h5 h7 run show ?thesis by blast
qed

text \<open>
  C4. When a rule has matched and its builder has returned the attributes \<open>attrs\<close>
  (an object: no property name twice), the node pushed next onto the result is
  \<^verbatim>\<open>{type: ruleType}\<close> overlaid with \<open>attrs\<close>. Its \<^verbatim>\<open>type\<close> is the builder's value when \<open>attrs\<close>
  has a property \<^verbatim>\<open>type\<close>, and the rule type whose pattern matched when it has none.
\<close>

theorem builder_type_overrides_rule_type:
  assumes "firstMatch rules ruleList source 0 = Inr (i, Some (ruleType, rule, capture))"
    and "source \<noteq> []"
    and "parse rule capture (nestedParse n rules ruleList) st = Some (Inr (attrs, st'))"
    and "distinct (map fst attrs)"
    and "parseLoop (Suc n) rules ruleList source st result = Some (Inr (nodes, st''))"
  shows "length result < length nodes \<and>
         nodes ! length result = Obj (extend [(''type'', Str ruleType)] attrs) \<and>
         get_prop (extend [(''type'', Str ruleType)] attrs) ''type'' =
           (case map_of attrs ''type'' of Some v \<Rightarrow> v | None \<Rightarrow> Str ruleType)"
proof -
  from parseLoop_match [OF assms(1,2), of n st result] assms(3,5)
  have "parseLoop n rules ruleList (drop (length (whole capture)) source) st'
          (result @ [Obj (extend [(''type'', Str ruleType)] attrs)]) = Some (Inr (nodes, st''))"
    by simp
  from parseLoop_prefix [OF this] obtain new
    where "nodes = (result @ [Obj (extend [(''type'', Str ruleType)] attrs)]) @ new" ..
  then have "length result < length nodes"
    and "nodes ! length result = Obj (extend [(''type'', Str ruleType)] attrs)"
    by (simp_all add: nth_append)
  with get_prop_extend_type [OF assms(4)] show ?thesis by simp
qed

text \<open>
  The rule \<^verbatim>\<open>lheading\<close> returns the type \<^verbatim>\<open>heading\<close>, and the node carries it; the node of
  the rule \<^verbatim>\<open>text\<close>, whose builder returns no type, is tagged \<^verbatim>\<open>text\<close>.
\<close>

theorem builder_type_overrides_rule_type_witness:
  "parseLoop (Suc 2) someRules somePriorities headingSource [] [] =
     Some (Inr ([Obj [(''type'', Str ''heading''), (''level'', Num 1),
                      (''content'', Arr [Obj [(''type'', Str ''text''), (''content'', Str ''T'')]])],
                 Obj [(''type'', Str ''text''), (''content'', Str ''x'')]], [])) \<and>
   get_prop (extend [(''type'', Str ''lheading'')]
       [(''type'', Str ''heading''), (''level'', Num 1),
        (''content'', Arr [Obj [(''type'', Str ''text''), (''content'', Str ''T'')]])]) ''type'' =
     Str ''heading'' \<and>
   get_prop (extend [(''type'', Str ''text'')] [(''content'', Str ''x'')]) ''type'' = Str ''text''"
proof -
  let ?cap = "Capture (''T'' @ [NL] @ ''==='' @ [NL]) [Some ''T'', Some ''='']"
  let ?attrs = "[(''type'', Str ''heading''), (''level'', Num 1),
        (''content'', Arr [Obj [(''type'', Str ''text''), (''content'', Str ''T'')]])]"
  let ?nodes = "[Obj ?attrs, Obj [(''type'', Str ''text''), (''content'', Str ''x'')]]"
  have h1: "firstMatch someRules somePriorities headingSource 0 =
      Inr (0, Some (''lheading'', lheading_rule, ?cap))"
    by (simp add: firstMatch.simps rule_defs headingSource_def)
  have h2: "headingSource \<noteq> []" by (simp add: headingSource_def)
  have h3: "parse lheading_rule ?cap (nestedParse 2 someRules somePriorities) [] =
      Some (Inr (?attrs, []))"
    by (simp add: nestedParse_def firstMatch.simps rule_defs source_or_empty_def
        state_or_fresh_def numeral_2_eq_2)
  have h4: "distinct (map fst ?attrs)" by simp
  have h5: "parseLoop (Suc 2) someRules somePriorities headingSource [] [] =
      Some (Inr (?nodes, []))"
    by (simp add: firstMatch.simps rule_defs headingSource_def source_or_empty_def
        state_or_fresh_def numeral_2_eq_2)
  note w1 = builder_type_overrides_rule_type [OF h1 h2 h3 h4 h5]
  have g1: "firstMatch someRules somePriorities ''x'' 0 =
      Inr (2, Some (''text'', text_rule, Capture ''x'' []))"
    by (simp add: firstMatch.simps rule_defs)
  have g2: "''x'' \<noteq> []" by simp
  have g3: "parse text_rule (Capture ''x'' []) (nestedParse 1 someRules somePriorities) [] =
      Some (Inr ([(''content'', Str ''x'')], []))"
    by (simp add: rule_defs)
  have g4: "distinct (map fst [(''content'', Str ''x'')])" by simp
  have g5: "parseLoop (Suc 1) someRules somePriorities ''x'' [] [] =
      Some (Inr ([Obj [(''type'', Str ''text''), (''content'', Str ''x'')]], []))"
    by (simp add: firstMatch.simps rule_defs)
  note w2 = builder_type_overrides_rule_type [OF g1 g2 g3 g4 g5]
  from w1 w2 h5 show ?thesis by simp
qed

section \<open>The output walker\<close>

text \<open>\<open>mapRes\<close> returns a list exactly when every element has a result, in the same order.\<close>

lemma mapRes_Inr_D:
  "mapRes f xs = Some (Inr ys) \<Longrightarrow> list_all2 (\<lambda>x y. f x = Some (Inr y)) xs ys"
  by (induction xs arbitrary: ys) (auto split: option.splits sum.splits)

lemma mapRes_Inr_I:
  "list_all2 (\<lambda>x y. f x = Some (Inr y)) xs ys \<Longrightarrow> mapRes f xs = Some (Inr ys)"
  by (induction xs ys rule: list_all2_induct) simp_all

lemma mapRes_Inr_iff:
  "mapRes f xs = Some (Inr ys) \<longleftrightarrow> list_all2 (\<lambda>x y. f x = Some (Inr y)) xs ys"
  using mapRes_Inr_D mapRes_Inr_I by blast

lemma nestedOutput_Arr:
  "nestedOutput (Suc n) outputFunc (Arr xs) =
     (case mapRes (nestedOutput n outputFunc) xs of
        None \<Rightarrow> None
      | Some (Inl e) \<Rightarrow> Some (Inl e)
      | Some (Inr ys) \<Rightarrow> Some (Inr (Arr ys)))"
  by simp

lemma nestedOutput_node:
  "\<not> isArray ast \<Longrightarrow>
   nestedOutput (Suc n) outputFunc ast = outputFunc ast (nestedOutput n outputFunc)"
  by simp

text \<open>
  C5. For every output function, the walker applied to an array returns an array exactly
  when it returns on every element one level down, and then the result has the same
  length and holds at each position the result of the element at that position. Applied
  to a value that is not an array, it is one call of the output function, on that value
  and on the walker itself (with the rest of its budget) as the callback, and the result
  of the walker is the result of that call.
\<close>

theorem render_maps_sequences_and_dispatches_nodes:
  "(nestedOutput (Suc n) outputFunc (Arr xs) = Some (Inr v) \<longleftrightarrow>
      (\<exists>ys. v = Arr ys \<and> length ys = length xs \<and>
         (\<forall>i<length xs. nestedOutput n outputFunc (xs ! i) = Some (Inr (ys ! i))))) \<and>
   (\<not> isArray ast \<longrightarrow>
      nestedOutput (Suc n) outputFunc ast = outputFunc ast (nestedOutput n outputFunc))"
proof (intro conjI impI)
  show "nestedOutput (Suc n) outputFunc (Arr xs) = Some (Inr v) \<longleftrightarrow>
      (\<exists>ys. v = Arr ys \<and> length ys = length xs \<and>
         (\<forall>i<length xs. nestedOutput n outputFunc (xs ! i) = Some (Inr (ys ! i))))"
  proof
    assume "nestedOutput (Suc n) outputFunc (Arr xs) = Some (Inr v)"
    then obtain ys where m: "mapRes (nestedOutput n outputFunc) xs = Some (Inr ys)" and v: "v = Arr ys"
      by (auto simp: nestedOutput_Arr split: option.splits sum.splits)
    from m have "list_all2 (\<lambda>x y. nestedOutput n outputFunc x = Some (Inr y)) xs ys"
      by (simp add: mapRes_Inr_iff)
    then have "length ys = length xs"
      and "\<forall>i<length xs. nestedOutput n outputFunc (xs ! i) = Some (Inr (ys ! i))"
      by (auto simp: list_all2_conv_all_nth)
    with v show "\<exists>ys. v = Arr ys \<and> length ys = length xs \<and>
         (\<forall>i<length xs. nestedOutput n outputFunc (xs ! i) = Some (Inr (ys ! i)))"
      by blast
  next
    assume "\<exists>ys. v = Arr ys \<and> length ys = length xs \<and>
         (\<forall>i<length xs. nestedOutput n outputFunc (xs ! i) = Some (Inr (ys ! i)))"
    then obtain ys where v: "v = Arr ys" and l: "length ys = length xs"
      and e: "\<forall>i<length xs. nestedOutput n outputFunc (xs ! i) = Some (Inr (ys ! i))"
      by blast
    from l e have "list_all2 (\<lambda>x y. nestedOutput n outputFunc x = Some (Inr y)) xs ys"
      by (simp add: list_all2_conv_all_nth)
    then have "mapRes (nestedOutput n outputFunc) xs = Some (Inr ys)"
      by (simp add: mapRes_Inr_iff)
    with v show "nestedOutput (Suc n) outputFunc (Arr xs) = Some (Inr v)"
      by (simp add: nestedOutput_Arr)
  qed
next
  assume "\<not> isArray ast"
  then show "nestedOutput (Suc n) outputFunc ast = outputFunc ast (nestedOutput n outputFunc)"
    by (rule nestedOutput_node)
qed

theorem render_maps_sequences_and_dispatches_nodes_witness:
  "nestedOutput (Suc (Suc 0)) (ruleOutput someRules) (Arr [textNode, newlineNode]) =
     Some (Inr (Arr [Str ''x'', Str '' ''])) \<and>
   nestedOutput (Suc 0) (ruleOutput someRules) textNode = Some (Inr (Str ''x'')) \<and>
   nestedOutput (Suc 0) (ruleOutput someRules) newlineNode = Some (Inr (Str '' '')) \<and>
   \<not> isArray textNode \<and>
   nestedOutput (Suc (Suc 0)) (ruleOutput someRules) textNode =
     ruleOutput someRules textNode (nestedOutput (Suc 0) (ruleOutput someRules))"
proof -
  note w = render_maps_sequences_and_dispatches_nodes
    [of "Suc 0" "ruleOutput someRules" "[textNode, newlineNode]" "Arr [Str ''x'', Str '' '']"
        textNode]
  have a: "nestedOutput (Suc 0) (ruleOutput someRules) textNode = Some (Inr (Str ''x''))"
    by (simp add: ruleOutput_def node_defs rule_defs get_prop_def)
  have b: "nestedOutput (Suc 0) (ruleOutput someRules) newlineNode = Some (Inr (Str '' ''))"
    by (simp add: ruleOutput_def node_defs rule_defs get_prop_def)
  have c: "\<not> isArray textNode" by (simp add: textNode_def)
  have all: "\<forall>i<length [textNode, newlineNode].
      nestedOutput (Suc 0) (ruleOutput someRules) ([textNode, newlineNode] ! i) =
      Some (Inr ([Str ''x'', Str '' ''] ! i))"
    using a b by (simp add: less_Suc_eq nth_Cons' del: nestedOutput.simps)
  have ex: "\<exists>ys. Arr [Str ''x'', Str '' ''] = Arr ys \<and>
      length ys = length [textNode, newlineNode] \<and>
      (\<forall>i<length [textNode, newlineNode].
         nestedOutput (Suc 0) (ruleOutput someRules) ([textNode, newlineNode] ! i) =
         Some (Inr (ys ! i)))"
  proof (rule exI [of _ "[Str ''x'', Str '' '']"], intro conjI)
    show "Arr [Str ''x'', Str '' ''] = Arr [Str ''x'', Str '' '']" by (rule refl)
    show "length [Str ''x'', Str '' ''] = length [textNode, newlineNode]" by simp
    show "\<forall>i<length [textNode, newlineNode].
         nestedOutput (Suc 0) (ruleOutput someRules) ([textNode, newlineNode] ! i) =
         Some (Inr ([Str ''x'', Str '' ''] ! i))" by (rule all)
  qed
  have seq: "nestedOutput (Suc (Suc 0)) (ruleOutput someRules) (Arr [textNode, newlineNode]) =
     Some (Inr (Arr [Str ''x'', Str '' '']))"
    by (rule w [THEN conjunct1, THEN iffD2, OF ex])
  have node: "nestedOutput (Suc (Suc 0)) (ruleOutput someRules) textNode =
     ruleOutput someRules textNode (nestedOutput (Suc 0) (ruleOutput someRules))"
    by (rule w [THEN conjunct2, THEN mp, OF c])
  from seq a b c node show ?thesis by (intro conjI)
qed

text \<open>
  C6. With the output function \<^verbatim>\<open>ruleOutput(rules)\<close>, the walker fails on a node whose type
  has no output function in the table: either no rule is registered under the type, or
  the rule registered there has no \<^verbatim>\<open>output\<close>. The failure is the one the runtime raises
  for \<^verbatim>\<open>rules[ast.type].output(...)\<close>; the module has no error class of its own.
\<close>

theorem render_without_renderer_raises:
  assumes "\<not> isArray ast"
    and "get_member ast ''type'' = Inr t"
    and "rules (toPropertyKey t) = None \<or>
         (\<exists>r. rules (toPropertyKey t) = Some r \<and> rule_output r = None)"
  shows "nestedOutput (Suc n) (ruleOutput rules) ast = Some (Inl TypeError)"
  using assms by (auto simp: ruleOutput_def)


theorem render_without_renderer_raises_witness:
  "\<not> isArray headingNode \<and> get_member headingNode ''type'' = Inr (Str ''heading'') \<and>
   someRules (toPropertyKey (Str ''heading'')) = None \<and>
   nestedOutput (Suc 0) (ruleOutput someRules) headingNode = Some (Inl TypeError) \<and>
   \<not> isArray lheadingNode \<and> get_member lheadingNode ''type'' = Inr (Str ''lheading'') \<and>
   someRules (toPropertyKey (Str ''lheading'')) = Some lheading_rule \<and>
   rule_output lheading_rule = None \<and>
   nestedOutput (Suc 0) (ruleOutput someRules) lheadingNode = Some (Inl TypeError)"
proof -
  have a1: "\<not> isArray headingNode" by (simp add: node_defs)
  have a2: "get_member headingNode ''type'' = Inr (Str ''heading'')"
    by (simp add: node_defs get_prop_def)
  have a3: "someRules (toPropertyKey (Str ''heading'')) = None" by (simp add: rule_defs)
  have b1: "\<not> isArray lheadingNode" by (simp add: node_defs)
  have b2: "get_member lheadingNode ''type'' = Inr (Str ''lheading'')"
    by (simp add: node_defs get_prop_def)
  have b3: "someRules (toPropertyKey (Str ''lheading'')) = Some lheading_rule"
    by (simp add: someRules_def)
  have b4: "rule_output lheading_rule = None" by (simp add: lheading_rule_def)
  have w1: "nestedOutput (Suc 0) (ruleOutput someRules) headingNode = Some (Inl TypeError)"
    by (rule render_without_renderer_raises [where t = "Str ''heading''"])
      (use a1 a2 a3 in simp_all)
  have w2: "nestedOutput (Suc 0) (ruleOutput someRules) lheadingNode = Some (Inl TypeError)"
    by (rule render_without_renderer_raises [where t = "Str ''lheading''"])
      (use b1 b2 b3 b4 in simp_all)
  from a1 a2 a3 b1 b2 b3 b4 w1 w2 show ?thesis by simp
qed

section \<open>The builder of lists\<close>

subsection \<open>The end of a block\<close>

lemma trailing_Cons:
  "length (takeWhile (\<lambda>c. c = NL) (rev (c # cs))) =
     (if \<forall>x \<in> set cs. x = NL then (if c = NL then Suc (length cs) else length cs)
      else length (takeWhile (\<lambda>c. c = NL) (rev cs)))"
  by (auto simp: takeWhile_append1 takeWhile_append2 takeWhile_eq_all_conv [THEN iffD2]
      takeWhile_append)

lemma trailing_le: "length (takeWhile P (rev s)) \<le> length s"
  using length_takeWhile_le [of P "rev s"] by simp

lemma LIST_BLOCK_END_R_search_eq:
  "LIST_BLOCK_END_R_search s =
     (if ends_in_blank_lines s
      then Some (length s - length (takeWhile (\<lambda>c. c = NL) (rev s))) else None)"
proof (induction s)
  case Nil
  then show ?case by (simp add: ends_in_blank_lines_def)
next
  case (Cons c cs)
  let ?tr = "\<lambda>s. length (takeWhile (\<lambda>c. c = NL) (rev s))"
  show ?case
  proof (cases "\<forall>x \<in> set (c # cs). x = NL")
    case True
    then have tr: "?tr (c # cs) = Suc (length cs)" by (simp only: trailing_Cons) simp
    show ?thesis
    proof (cases "2 \<le> length (c # cs)")
      case True
      with \<open>\<forall>x \<in> set (c # cs). x = NL\<close> tr show ?thesis
        by (simp add: ends_in_blank_lines_def del: rev.simps)
    next
      case False
      then have "cs = []" by (cases cs) auto
      with True show ?thesis by (simp add: ends_in_blank_lines_def)
    qed
  next
    case False
    then have s: "LIST_BLOCK_END_R_search (c # cs) = map_option Suc (LIST_BLOCK_END_R_search cs)"
      by auto
    show ?thesis
    proof (cases "\<forall>x \<in> set cs. x = NL")
      case True
      with False have c: "c \<noteq> NL" by auto
      from True have trcs: "?tr cs = length cs" by (simp add: takeWhile_eq_all_conv [THEN iffD2])
      from True c have tr: "?tr (c # cs) = length cs" by (simp only: trailing_Cons) simp
      show ?thesis unfolding s Cons.IH ends_in_blank_lines_def tr trcs by simp
    next
      case nall: False
      then have tr: "?tr (c # cs) = ?tr cs" by (simp only: trailing_Cons) simp
      have "?tr cs \<le> length cs" by (rule trailing_le)
      then show ?thesis unfolding s Cons.IH ends_in_blank_lines_def tr
        by (simp add: Suc_diff_le)
    qed
  qed
qed

lemma LIST_BLOCK_END_R_search_iff:
  "LIST_BLOCK_END_R_search s \<noteq> None \<longleftrightarrow> ends_in_blank_lines s"
  by (simp add: LIST_BLOCK_END_R_search_eq)

lemma LIST_BLOCK_END_R_remove_eq: "LIST_BLOCK_END_R_remove s = strip_blank_lines s"
proof (cases "ends_in_blank_lines s")
  case False
  then show ?thesis
    by (simp add: LIST_BLOCK_END_R_remove_def strip_blank_lines_def LIST_BLOCK_END_R_search_eq)
next
  case True
  have "take (length s - length (takeWhile (\<lambda>c. c = NL) (rev s))) s =
        rev (drop (length (takeWhile (\<lambda>c. c = NL) (rev s))) (rev s))"
    by (simp add: rev_drop)
  also have "\<dots> = rev (dropWhile (\<lambda>c. c = NL) (rev s))"
    by (simp only: dropWhile_eq_drop)
  finally show ?thesis using True
    by (simp add: LIST_BLOCK_END_R_remove_def strip_blank_lines_def LIST_BLOCK_END_R_search_eq)
qed

lemma takeWhile_dropWhile_Nil: "takeWhile P (dropWhile P xs) = []"
  by (induction xs) auto

lemma strip_blank_lines_tight: "\<not> ends_in_blank_lines (strip_blank_lines s)"
proof (cases "ends_in_blank_lines s")
  case False
  then show ?thesis by (simp add: strip_blank_lines_def)
next
  case True
  have "takeWhile (\<lambda>c. c = NL) (dropWhile (\<lambda>c. c = NL) (rev s)) = []"
    by (rule takeWhile_dropWhile_Nil)
  with True show ?thesis by (simp add: strip_blank_lines_def ends_in_blank_lines_def)
qed


subsection \<open>Items start with their prefix\<close>

lemma list_bullet_stable:
  assumes "list_bullet s = Some (b, r)"
  shows "s = b @ r \<and> b \<noteq> [] \<and> hd b \<noteq> SP \<and> list_bullet (b @ r') = Some (b, r')"
proof (cases s)
  case Nil
  with assms show ?thesis by (simp add: list_bullet_def)
next
  case (Cons c cs)
  show ?thesis
  proof (cases "c \<in> set ''*+-''")
    case True
    with assms Cons have "b = [c]" "r = cs" by (auto simp: list_bullet_def)
    with True Cons show ?thesis by (auto simp: list_bullet_def SP_def)
  next
    case False
    define ds where "ds = takeWhile is_digit s"
    from assms Cons False have ds: "ds \<noteq> []" and dot: "take 1 (dropWhile is_digit s) = ''.''"
      and b: "b = ds @ ''.''" and r: "r = drop 1 (dropWhile is_digit s)"
      by (auto simp: list_bullet_def Let_def ds_def split: if_splits)
    from dot have dw: "dropWhile is_digit s = CHR ''.'' # r"
      using r by (cases "dropWhile is_digit s") auto
    have s: "s = ds @ dropWhile is_digit s" by (simp add: ds_def)
    have digs: "\<forall>x \<in> set ds. is_digit x" by (auto simp: ds_def dest: set_takeWhileD)
    obtain ds' where dsc: "ds = c # ds'"
      using ds Cons by (cases ds) (auto simp: ds_def split: if_splits)
    have dig: "is_digit c" using digs dsc by simp
    have nd: "\<not> is_digit (CHR ''.'')" by (simp add: is_digit_def)
    have tw: "takeWhile is_digit (ds @ CHR ''.'' # r') = ds"
      using nd digs by simp
    have dwr: "dropWhile is_digit (ds @ CHR ''.'' # r') = CHR ''.'' # r'"
      using nd digs by simp
    have "list_bullet ((ds @ ''.'') @ r') = Some (ds @ ''.'', r')"
    proof -
      have "list_bullet (c # ds' @ CHR ''.'' # r') = Some (ds @ ''.'', r')"
        using tw dwr False unfolding dsc list_bullet_def by (simp add: Let_def)
      then show ?thesis by (simp add: dsc)
    qed
    then have "list_bullet (b @ r') = Some (b, r')" by (simp only: b)
    moreover have "s = b @ r" using s dw b by simp
    moreover have "hd b \<noteq> SP" using b dsc dig by (auto simp: is_digit_def SP_def)
    moreover have "b \<noteq> []" using b by simp
    ultimately show ?thesis by simp
  qed
qed

lemma list_item_prefix_stable:
  assumes "list_item_prefix s = Some (sp, b, r)"
  shows "s = sp @ b @ [SP] @ r \<and> list_item_prefix (sp @ b @ [SP] @ r') = Some (sp, b, r')"
proof -
  let ?rest = "dropWhile (\<lambda>c. c = SP) s"
  from assms obtain r0 where sp: "sp = takeWhile (\<lambda>c. c = SP) s"
    and lb: "list_bullet ?rest = Some (b, r0)" and t: "take 1 r0 = [SP]" and r: "r = drop 1 r0"
    by (auto simp: list_item_prefix_def Let_def split: option.splits if_splits)
  from t r have r0: "r0 = SP # r" by (cases r0) auto
  note st = list_bullet_stable [OF lb]
  have s: "s = sp @ ?rest" using sp by simp
  have all: "\<forall>x \<in> set sp. x = SP" using sp by (auto dest: set_takeWhileD)
  obtain c b' where bc: "b = c # b'" and c: "c \<noteq> SP" using st [of "[]"] by (cases b) auto
  have tw: "takeWhile (\<lambda>c. c = SP) (sp @ b @ [SP] @ r') = sp"
    using all bc c by (simp add: takeWhile_append2)
  have dw: "dropWhile (\<lambda>c. c = SP) (sp @ b @ [SP] @ r') = b @ [SP] @ r'"
    using all bc c by (simp add: dropWhile_append2)
  have "list_bullet (b @ [SP] @ r') = Some (b, [SP] @ r')" using st [of "[SP] @ r'"] by simp
  then have "list_item_prefix (sp @ b @ [SP] @ r') = Some (sp, b, r')"
    unfolding list_item_prefix_def tw dw by (simp add: Let_def)
  moreover have "s = sp @ b @ [SP] @ r" using s st [of "[]"] r0 by simp
  ultimately show ?thesis by simp
qed

lemma list_item_at_prefix:
  assumes "list_item_at s = Some (m, r)"
  shows "list_item_prefix m \<noteq> None"
proof -
  from assms obtain sp b r0 m0 where p: "list_item_prefix s = Some (sp, b, r0)"
    and m: "m = sp @ b @ [SP] @ takeWhile (\<lambda>c. c \<noteq> NL) r0 @ m0"
    by (auto simp: list_item_at_def Let_def split: option.splits prod.splits)
  from list_item_prefix_stable [OF p, of "takeWhile (\<lambda>c. c \<noteq> NL) r0 @ m0"] m
  show ?thesis by simp
qed

lemma LIST_ITEM_R_match_prefix:
  "item \<in> set (LIST_ITEM_R_match s) \<Longrightarrow> list_item_prefix item \<noteq> None"
proof (induction s rule: LIST_ITEM_R_match.induct)
  case (1 s)
  show ?case
  proof (cases s)
    case Nil
    with "1.prems" show ?thesis by (simp add: LIST_ITEM_R_match.simps)
  next
    case (Cons c cs)
    show ?thesis
    proof (cases "list_item_at s")
      case None
      have "LIST_ITEM_R_match s = LIST_ITEM_R_match cs"
        by (subst LIST_ITEM_R_match.simps) (simp add: Cons None [unfolded Cons])
      with "1.prems" have "item \<in> set (LIST_ITEM_R_match cs)" by simp
      from "1.IH"(1) [OF Cons None this] show ?thesis .

    next
      case (Some p)
      obtain m r where p: "p = (m, r)" by (cases p)
      have "LIST_ITEM_R_match s = m # LIST_ITEM_R_match r"
        by (subst LIST_ITEM_R_match.simps) (simp add: Cons Some [unfolded Cons] p)
      with "1.prems" have "item = m \<or> item \<in> set (LIST_ITEM_R_match r)" by simp
      then show ?thesis
      proof
        assume "item = m"
        with list_item_at_prefix Some p show ?thesis by simp
      next
        assume "item \<in> set (LIST_ITEM_R_match r)"
        from "1.IH"(2) [OF Cons Some p [symmetric] this] show ?thesis .
      qed
    qed
  qed
qed

lemma item_dedent_match:
  "item \<in> set (LIST_ITEM_R_match s) \<Longrightarrow> item_dedent item = Inr (dedented item)"
  using LIST_ITEM_R_match_prefix [of item s]
  by (auto simp: item_dedent_def dedented_def LIST_ITEM_PREFIX_R_exec_def split: option.splits)

subsection \<open>Loose and tight lists\<close>

lemma item_content_eq:
  "item_dedent item = Inr (dedented item) \<Longrightarrow>
   item_content n i item flag =
     Inr (if i + 2 = n then ends_in_blank_lines (dedented item) else flag,
          if i + 2 \<noteq> n \<and> i + 1 = n \<and> \<not> flag then strip_blank_lines (dedented item)
          else dedented item)"
  by (simp add: item_content_def LIST_BLOCK_END_R_search_eq LIST_BLOCK_END_R_remove_eq)

lemma list_items_last:
  assumes "item_dedent item = Inr (dedented item)" and "i + 1 = n"
  shows "list_items parse' n i [item] flag st =
         parse_each parse'
           [if flag then dedented item else strip_blank_lines (dedented item)] st"
proof -
  from assms(2) have "i + 2 \<noteq> n" by simp
  with assms show ?thesis
    by (simp add: item_content_eq split: option.splits sum.splits prod.splits)
qed

lemma list_items_loose_or_tight:
  assumes "\<forall>item \<in> set items. item_dedent item = Inr (dedented item)"
    and "i + length items = n" and "2 \<le> length items"
  shows "list_items parse' n i items flag st =
         parse_each parse'
           (map dedented (butlast items) @
            [if ends_in_blank_lines (dedented (items ! (length items - 2)))
             then dedented (last items) else strip_blank_lines (dedented (last items))]) st"
  using assms
proof (induction items arbitrary: i flag st)
  case Nil
  then show ?case by simp
next
  case (Cons x xs)
  from Cons.prems have dx: "item_dedent x = Inr (dedented x)"
    and dxs: "\<forall>item \<in> set xs. item_dedent item = Inr (dedented item)" by simp_all
  from Cons.prems have ne: "xs \<noteq> []" by auto
  show ?case
  proof (cases "length xs = 1")
    case True
    then obtain y where xs: "xs = [y]" by (cases xs) auto
    from True Cons.prems have i2: "i + 2 = n" by simp
    from dxs xs have dy: "item_dedent y = Inr (dedented y)" by simp
    from i2 have i1: "(i + 1) + 1 = n" by simp
    have rest: "\<And>f s. list_items parse' n (i + 1) [y] f s =
        parse_each parse' [if f then dedented y else strip_blank_lines (dedented y)] s"
      by (rule list_items_last [OF dy i1])
    have ic: "item_content n i x flag = Inr (ends_in_blank_lines (dedented x), dedented x)"
      using item_content_eq [OF dx, of n i flag] i2 by simp
    have main: "list_items parse' n i [x, y] flag st =
        parse_each parse'
          [dedented x, if ends_in_blank_lines (dedented x) then dedented y
                       else strip_blank_lines (dedented y)] st"
      by (simp only: list_items.simps(2) [of parse' n i x] parse_each.simps(2) ic rest
          sum.case prod.case)
    have e: "map dedented (butlast [x, y]) @
            [if ends_in_blank_lines (dedented ([x, y] ! (length [x, y] - 2)))
             then dedented (last [x, y]) else strip_blank_lines (dedented (last [x, y]))] =
          [dedented x, if ends_in_blank_lines (dedented x) then dedented y
                       else strip_blank_lines (dedented y)]"
      by simp
    show ?thesis
      unfolding xs e by (rule main)
  next
    case False
    with ne have len: "2 \<le> length xs" by (cases xs) (auto simp: Suc_le_eq)
    with Cons.prems have i2: "i + 2 \<noteq> n" and i1: "i + 1 \<noteq> n" and n: "(i + 1) + length xs = n"
      by simp_all
    have rest: "\<And>f s. list_items parse' n (Suc i) xs f s =
        parse_each parse'
           (map dedented (butlast xs) @
            [if ends_in_blank_lines (dedented (xs ! (length xs - 2)))
             then dedented (last xs) else strip_blank_lines (dedented (last xs))]) s"
      using Cons.IH [OF dxs n len] by simp
    have ic: "item_content n i x flag = Inr (flag, dedented x)"
      using item_content_eq [OF dx, of n i flag] i1 i2 by simp
    have idx: "(x # xs) ! (length (x # xs) - 2) = xs ! (length xs - 2)"
      using len by (simp add: nth_Cons' Suc_diff_le numeral_2_eq_2)
    have lst: "last (x # xs) = last xs" and bl: "butlast (x # xs) = x # butlast xs"
      using ne by simp_all
    have main: "list_items parse' n i (x # xs) flag st =
        parse_each parse'
          (dedented x # map dedented (butlast xs) @
            [if ends_in_blank_lines (dedented (xs ! (length xs - 2)))
             then dedented (last xs) else strip_blank_lines (dedented (last xs))]) st"
      by (simp only: list_items.simps(2) parse_each.simps(2) ic rest sum.case prod.case
          Suc_eq_plus1 [symmetric])
    have e: "map dedented (butlast (x # xs)) @
            [if ends_in_blank_lines (dedented ((x # xs) ! (length (x # xs) - 2)))
             then dedented (last (x # xs))
             else strip_blank_lines (dedented (last (x # xs)))] =
          dedented x # map dedented (butlast xs) @
            [if ends_in_blank_lines (dedented (xs ! (length xs - 2)))
             then dedented (last xs) else strip_blank_lines (dedented (last xs))]"
      unfolding idx lst bl by simp
    show ?thesis
      unfolding e by (rule main)
  qed
qed

lemmas list_defs =
  list_regex_def list_item_prefix_def list_bullet_def list_end_def sibling_bullet_def
  LIST_ITEM_R_match.simps list_item_at_def item_lines.simps item_dedent_def dedented_def
  LIST_ITEM_PREFIX_R_exec_def LIST_ITEM_PREFIX_R_remove_def spaceRegex_remove_def
  strip_indent_def ends_in_blank_lines_def strip_blank_lines_def is_digit_def is_space_def
  tightSource_def looseSource_def singleSource_def orderedSource_def Let_def


lemma parse_text_a_nl:
  "nestedParse 2 someRules somePriorities (Some (''a'' @ [NL])) (Some []) =
     Some (Inr ([textOf (''a'' @ [NL])], []))"
  by (simp add: nestedParse_def firstMatch.simps rule_defs source_or_empty_def
        state_or_fresh_def numeral_2_eq_2 textOf_def)

lemma parse_text_b:
  "nestedParse 2 someRules somePriorities (Some ''b'') (Some []) = Some (Inr ([textOf ''b''], []))"
  by (simp add: nestedParse_def firstMatch.simps rule_defs source_or_empty_def
        state_or_fresh_def numeral_2_eq_2 textOf_def)

lemma parse_text_a:
  "nestedParse 2 someRules somePriorities (Some ''a'') (Some []) = Some (Inr ([textOf ''a''], []))"
  by (simp add: nestedParse_def firstMatch.simps rule_defs source_or_empty_def
        state_or_fresh_def numeral_2_eq_2 textOf_def)

lemma parse_text_a_blank:
  "nestedParse 3 someRules somePriorities (Some (''a'' @ [NL, NL])) (Some []) =
     Some (Inr ([textOf ''a'', newlineNode], []))"
  by (simp add: nestedParse_def firstMatch.simps rule_defs source_or_empty_def
        state_or_fresh_def numeral_3_eq_3 textOf_def newlineNode_def)

lemma parse_text_b_blank:
  "nestedParse 3 someRules somePriorities (Some (''b'' @ [NL, NL, NL])) (Some []) =
     Some (Inr ([textOf ''b'', newlineNode], []))"
  by (simp add: nestedParse_def firstMatch.simps rule_defs source_or_empty_def
        state_or_fresh_def numeral_3_eq_3 textOf_def newlineNode_def)

text \<open>
  C7. For a list block matched by the pattern of the rule \<^verbatim>\<open>list\<close>, group 2 of the capture
  is the bullet that opens the block, and whenever the builder returns, the attribute
  \<^verbatim>\<open>ordered\<close> of the node is true exactly when that bullet is longer than one character.
  The bullet \<^verbatim>\<open>1.\<close> gives true and the bullet \<^verbatim>\<open>*\<close> gives false.
\<close>

theorem list_ordered_iff_bullet_longer_than_one:
  assumes "list_regex source = Some capture"
    and "list_parse capture parse' st = Some (Inr (attrs, st'))"
  shows "\<exists>sp bullet r. list_item_prefix source = Some (sp, bullet, r) \<and>
           grp capture 2 = Some bullet \<and>
           get_prop attrs ''ordered'' = Bool (1 < length bullet)"
proof -
  from assms(1) obtain sp bullet r where p: "list_item_prefix source = Some (sp, bullet, r)"
    and g: "grp capture 2 = Some bullet"
    by (auto simp: list_regex_def grp_def split: option.splits list.splits)
  from assms(2) g have "get_prop attrs ''ordered'' = Bool (1 < length bullet)"
    by (auto simp: list_parse_def Let_def get_prop_def split: option.splits sum.splits)
  with p g show ?thesis by blast
qed


theorem list_ordered_iff_bullet_longer_than_one_witness:
  "list_regex orderedSource = Some (Capture orderedSource [Some [], Some ''1.'']) \<and>
   list_parse (Capture orderedSource [Some [], Some ''1.''])
       (nestedParse 2 someRules somePriorities) [] =
     Some (Inr ([(''ordered'', Bool True), (''items'', Arr [Arr [textOf ''a'']])], [])) \<and>
   (\<exists>sp bullet r. list_item_prefix orderedSource = Some (sp, bullet, r) \<and>
      grp (Capture orderedSource [Some [], Some ''1.'']) 2 = Some bullet \<and>
      get_prop [(''ordered'', Bool True), (''items'', Arr [Arr [textOf ''a'']])] ''ordered'' =
        Bool (1 < length bullet)) \<and>
   list_item_prefix orderedSource = Some ([], ''1.'', ''a'' @ [NL]) \<and>
   list_regex singleSource = Some (Capture singleSource [Some [], Some ''*'']) \<and>
   list_parse (Capture singleSource [Some [], Some ''*''])
       (nestedParse 2 someRules somePriorities) [] =
     Some (Inr ([(''ordered'', Bool False), (''items'', Arr [Arr [textOf ''a'']])], [])) \<and>
   (\<exists>sp bullet r. list_item_prefix singleSource = Some (sp, bullet, r) \<and>
      grp (Capture singleSource [Some [], Some ''*'']) 2 = Some bullet \<and>
      get_prop [(''ordered'', Bool False), (''items'', Arr [Arr [textOf ''a'']])] ''ordered'' =
        Bool (1 < length bullet)) \<and>
   list_item_prefix singleSource = Some ([], ''*'', ''a'' @ [NL, NL])"
proof -
  let ?ocap = "Capture orderedSource [Some [], Some ''1.'']"
  let ?scap = "Capture singleSource [Some [], Some ''*'']"
  have r1: "list_regex orderedSource = Some ?ocap" by (simp add: list_defs NL_def SP_def)
  have r2: "list_regex singleSource = Some ?scap" by (simp add: list_defs NL_def SP_def)
  have p1: "list_parse ?ocap (nestedParse 2 someRules somePriorities) [] =
     Some (Inr ([(''ordered'', Bool True), (''items'', Arr [Arr [textOf ''a'']])], []))"
    by (simp add: list_parse_def grp_def list_defs item_content_def NL_def SP_def
        LIST_BLOCK_END_R_remove_def parse_text_a)
  have p2: "list_parse ?scap (nestedParse 2 someRules somePriorities) [] =
     Some (Inr ([(''ordered'', Bool False), (''items'', Arr [Arr [textOf ''a'']])], []))"
    by (simp add: list_parse_def grp_def list_defs item_content_def NL_def SP_def
        LIST_BLOCK_END_R_remove_def parse_text_a)
  have q1: "list_item_prefix orderedSource = Some ([], ''1.'', ''a'' @ [NL])"
    by (simp add: list_defs NL_def SP_def)
  have q2: "list_item_prefix singleSource = Some ([], ''*'', ''a'' @ [NL, NL])"
    by (simp add: list_defs NL_def SP_def)
  note w1 = list_ordered_iff_bullet_longer_than_one [OF r1 p1]
  note w2 = list_ordered_iff_bullet_longer_than_one [OF r2 p2]
  from r1 r2 p1 p2 q1 q2 w1 w2 show ?thesis by (intro conjI)
qed

text \<open>
  C8. For a list block with two or more items, every item has a dedented content, and
  the builder parses, in order and through the same state: the dedented contents as they
  are when the content of the second-to-last item ends with two or more line feeds (a
  loose list: every item, the last included, keeps its trailing blank lines); otherwise
  the dedented contents of all items but the last as they are, and the content of the
  last item with its trailing run of two or more line feeds stripped (a tight list),
  after which that content no longer ends a paragraph block. The block of two items
  \<^verbatim>\<open>* a\<close>, \<^verbatim>\<open>* b\<close> gives an unordered list of two items whose parsed contents do not end in
  blank lines.
\<close>

theorem list_loose_or_tight:
  assumes "grp capture 2 = Some bullet"
    and "items = LIST_ITEM_R_match (whole capture)"
    and "2 \<le> length items"
  shows "(\<forall>item \<in> set items. item_dedent item = Inr (dedented item)) \<and>
         list_parse capture parse' st =
           (case parse_each parse'
                   (map dedented (butlast items) @
                    [if ends_in_blank_lines (dedented (items ! (length items - 2)))
                     then dedented (last items)
                     else strip_blank_lines (dedented (last items))]) st of
              None \<Rightarrow> None
            | Some (Inl e) \<Rightarrow> Some (Inl e)
            | Some (Inr (itemContent, st')) \<Rightarrow>
                Some (Inr ([(''ordered'', Bool (1 < length bullet)),
                            (''items'', Arr itemContent)], st'))) \<and>
         \<not> ends_in_blank_lines (strip_blank_lines (dedented (last items)))"
proof -
  have d: "\<forall>item \<in> set items. item_dedent item = Inr (dedented item)"
    using assms(2) by (auto intro: item_dedent_match)
  have eq: "list_items parse' (length items) 0 items False st =
         parse_each parse'
           (map dedented (butlast items) @
            [if ends_in_blank_lines (dedented (items ! (length items - 2)))
             then dedented (last items) else strip_blank_lines (dedented (last items))]) st"
    by (rule list_items_loose_or_tight [OF d _ assms(3)]) simp
  have "list_parse capture parse' st =
           (case parse_each parse'
                   (map dedented (butlast items) @
                    [if ends_in_blank_lines (dedented (items ! (length items - 2)))
                     then dedented (last items)
                     else strip_blank_lines (dedented (last items))]) st of
              None \<Rightarrow> None
            | Some (Inl e) \<Rightarrow> Some (Inl e)
            | Some (Inr (itemContent, st')) \<Rightarrow>
                Some (Inr ([(''ordered'', Bool (1 < length bullet)),
                            (''items'', Arr itemContent)], st')))"
    by (simp only: list_parse_def assms(1) option.case Let_def assms(2) [symmetric] eq)
  with d strip_blank_lines_tight show ?thesis by blast
qed

theorem list_loose_or_tight_witness:
  "list_regex tightSource = Some (Capture tightSource [Some [], Some ''*'']) \<and>
   LIST_ITEM_R_match tightSource = [''* a'', ''* b'' @ [NL]] \<and>
   dedented ''* a'' = ''a'' @ [NL] \<and> dedented (''* b'' @ [NL]) = ''b'' @ [NL, NL] \<and>
   \<not> ends_in_blank_lines (''a'' @ [NL]) \<and>
   strip_blank_lines (''b'' @ [NL, NL]) = ''b'' \<and> \<not> ends_in_blank_lines ''b'' \<and>
   list_parse (Capture tightSource [Some [], Some ''*''])
       (nestedParse 2 someRules somePriorities) [] =
     Some (Inr ([(''ordered'', Bool False),
                 (''items'', Arr [Arr [textOf (''a'' @ [NL])], Arr [textOf ''b'']])], [])) \<and>
   list_regex looseSource = Some (Capture looseSource [Some [], Some ''*'']) \<and>
   LIST_ITEM_R_match looseSource = [''* a'' @ [NL], ''* b'' @ [NL, NL]] \<and>
   dedented (''* a'' @ [NL]) = ''a'' @ [NL, NL] \<and>
   dedented (''* b'' @ [NL, NL]) = ''b'' @ [NL, NL, NL] \<and>
   ends_in_blank_lines (''a'' @ [NL, NL]) \<and>
   list_parse (Capture looseSource [Some [], Some ''*''])
       (nestedParse 3 someRules somePriorities) [] =
     Some (Inr ([(''ordered'', Bool False),
                 (''items'', Arr [Arr [textOf ''a'', newlineNode],
                                  Arr [textOf ''b'', newlineNode]])], []))"
proof -
  let ?tcap = "Capture tightSource [Some [], Some ''*'']"
  let ?lcap = "Capture looseSource [Some [], Some ''*'']"
  have r1: "list_regex tightSource = Some ?tcap" by (simp add: list_defs NL_def SP_def)
  have r2: "list_regex looseSource = Some ?lcap" by (simp add: list_defs NL_def SP_def)
  have m1: "LIST_ITEM_R_match tightSource = [''* a'', ''* b'' @ [NL]]"
    by (simp add: list_defs NL_def SP_def)
  have m2: "LIST_ITEM_R_match looseSource = [''* a'' @ [NL], ''* b'' @ [NL, NL]]"
    by (simp add: list_defs NL_def SP_def)
  have d1: "dedented ''* a'' = ''a'' @ [NL]" by (simp add: list_defs NL_def SP_def)
  have d2: "dedented (''* b'' @ [NL]) = ''b'' @ [NL, NL]" by (simp add: list_defs NL_def SP_def)
  have d3: "dedented (''* a'' @ [NL]) = ''a'' @ [NL, NL]" by (simp add: list_defs NL_def SP_def)
  have d4: "dedented (''* b'' @ [NL, NL]) = ''b'' @ [NL, NL, NL]"
    by (simp add: list_defs NL_def SP_def)
  have e1: "\<not> ends_in_blank_lines (''a'' @ [NL])" by (simp add: list_defs NL_def)
  have e2: "strip_blank_lines (''b'' @ [NL, NL]) = ''b''" by (simp add: list_defs NL_def)
  have e3: "\<not> ends_in_blank_lines ''b''" by (simp add: list_defs NL_def)
  have e4: "ends_in_blank_lines (''a'' @ [NL, NL])" by (simp add: list_defs NL_def)
  have g1: "grp ?tcap 2 = Some ''*''" by (simp add: grp_def)
  have g2: "grp ?lcap 2 = Some ''*''" by (simp add: grp_def)
  have i1: "[''* a'', ''* b'' @ [NL]] = LIST_ITEM_R_match (whole ?tcap)" by (simp add: m1)
  have i2: "[''* a'' @ [NL], ''* b'' @ [NL, NL]] = LIST_ITEM_R_match (whole ?lcap)"
    by (simp add: m2)
  have l1: "2 \<le> length [''* a'', ''* b'' @ [NL]]" by simp
  have l2: "2 \<le> length [''* a'' @ [NL], ''* b'' @ [NL, NL]]" by simp
  note w1 = list_loose_or_tight [OF g1 i1 l1, of "nestedParse 2 someRules somePriorities" "[]",
      THEN conjunct2, THEN conjunct1]
  note w2 = list_loose_or_tight [OF g2 i2 l2, of "nestedParse 3 someRules somePriorities" "[]",
      THEN conjunct2, THEN conjunct1]
  have p1: "list_parse ?tcap (nestedParse 2 someRules somePriorities) [] =
     Some (Inr ([(''ordered'', Bool False),
                 (''items'', Arr [Arr [textOf (''a'' @ [NL])], Arr [textOf ''b'']])], []))"
    unfolding w1
    by (simp add: d1 [simplified] d2 [simplified] e1 [simplified] e2 [simplified]
        parse_text_a_nl [simplified] parse_text_b)
  have p2: "list_parse ?lcap (nestedParse 3 someRules somePriorities) [] =
     Some (Inr ([(''ordered'', Bool False),
                 (''items'', Arr [Arr [textOf ''a'', newlineNode],
                                  Arr [textOf ''b'', newlineNode]])], []))"
    unfolding w2
    by (simp add: d3 [simplified] d4 [simplified] e4 [simplified]
        parse_text_a_blank [simplified] parse_text_b_blank [simplified])
  from r1 r2 m1 m2 d1 d2 d3 d4 e1 e2 e3 e4 p1 p2 show ?thesis by (intro conjI)
qed

text \<open>
  C10. For a list block that is matched as exactly one item, the content parsed is the
  dedented content with its trailing run of two or more line feeds stripped, also when
  the item itself ends in blank lines: a list of one item is always tight.
\<close>

theorem single_item_list_is_tight:
  assumes "grp capture 2 = Some bullet"
    and "LIST_ITEM_R_match (whole capture) = [item]"
  shows "item_dedent item = Inr (dedented item) \<and>
         list_parse capture parse' st =
           (case parse_each parse' [strip_blank_lines (dedented item)] st of
              None \<Rightarrow> None
            | Some (Inl e) \<Rightarrow> Some (Inl e)
            | Some (Inr (itemContent, st')) \<Rightarrow>
                Some (Inr ([(''ordered'', Bool (1 < length bullet)),
                            (''items'', Arr itemContent)], st'))) \<and>
         \<not> ends_in_blank_lines (strip_blank_lines (dedented item))"
proof -
  have d: "item_dedent item = Inr (dedented item)"
    by (rule item_dedent_match [of item "whole capture"]) (simp add: assms(2))
  have eq: "list_items parse' (length [item]) 0 [item] False st =
          parse_each parse' [strip_blank_lines (dedented item)] st"
    using list_items_last [OF d, of 0 1 parse' False st] by simp
  have "list_parse capture parse' st =
           (case parse_each parse' [strip_blank_lines (dedented item)] st of
              None \<Rightarrow> None
            | Some (Inl e) \<Rightarrow> Some (Inl e)
            | Some (Inr (itemContent, st')) \<Rightarrow>
                Some (Inr ([(''ordered'', Bool (1 < length bullet)),
                            (''items'', Arr itemContent)], st')))"
    by (simp only: list_parse_def assms(1) option.case Let_def assms(2) eq)
  with d strip_blank_lines_tight show ?thesis by blast
qed

theorem single_item_list_is_tight_witness:
  "list_regex singleSource = Some (Capture singleSource [Some [], Some ''*'']) \<and>
   LIST_ITEM_R_match singleSource = [singleSource] \<and>
   dedented singleSource = ''a'' @ [NL, NL, NL] \<and>
   ends_in_blank_lines (''a'' @ [NL, NL, NL]) \<and>
   strip_blank_lines (''a'' @ [NL, NL, NL]) = ''a'' \<and>
   list_parse (Capture singleSource [Some [], Some ''*''])
       (nestedParse 2 someRules somePriorities) [] =
     Some (Inr ([(''ordered'', Bool False), (''items'', Arr [Arr [textOf ''a'']])], []))"
proof -
  let ?cap = "Capture singleSource [Some [], Some ''*'']"
  have r: "list_regex singleSource = Some ?cap" by (simp add: list_defs NL_def SP_def)
  have m: "LIST_ITEM_R_match singleSource = [singleSource]"
    by (simp add: list_defs NL_def SP_def)
  have d: "dedented singleSource = ''a'' @ [NL, NL, NL]" by (simp add: list_defs NL_def SP_def)
  have e: "ends_in_blank_lines (''a'' @ [NL, NL, NL])" by (simp add: list_defs NL_def)
  have s: "strip_blank_lines (''a'' @ [NL, NL, NL]) = ''a''" by (simp add: list_defs NL_def)
  have g: "grp ?cap 2 = Some ''*''" by (simp add: grp_def)
  have i: "LIST_ITEM_R_match (whole ?cap) = [singleSource]" by (simp add: m)
  note w = single_item_list_is_tight [OF g i, of "nestedParse 2 someRules somePriorities" "[]",
      THEN conjunct2, THEN conjunct1]
  have p: "list_parse ?cap (nestedParse 2 someRules somePriorities) [] =
     Some (Inr ([(''ordered'', Bool False), (''items'', Arr [Arr [textOf ''a'']])], []))"
    unfolding w by (simp add: d [simplified] s [simplified] parse_text_a)
  from r m d e s p show ?thesis by (intro conjI)
qed

section \<open>Termination of the parser\<close>

lemma text_body_length: "length (text_body s) \<le> length s"
  by (induction s) auto

lemma text_regex_total: "\<exists>m. text_regex (c # cs) = Some m \<and> 1 \<le> length (whole m) \<and>
    length (whole m) \<le> length (c # cs)"
  by (simp add: text_regex_def text_body_length)

lemma firstMatch_reparse:
  "firstMatch reparseRules [''text''] ''a'' 0 = Inr (0, Some (''text'', reparse_rule, Capture ''a'' []))"
  by (simp add: firstMatch.simps reparseRules_def reparse_rule_def text_regex_def)

lemma parseLoop_reparse: "parseLoop n reparseRules [''text''] ''a'' st result = None"
proof (induction n arbitrary: st result)
  case 0
  show ?case by simp
next
  case (Suc n)
  have "parse reparse_rule (Capture ''a'' []) (nestedParse n reparseRules [''text'']) st = None"
    by (simp add: reparse_rule_def reparse_parse_def nestedParse_def source_or_empty_def
        state_or_fresh_def Suc.IH)
  moreover have ne: "''a'' \<noteq> []" by simp
  ultimately show ?case
    by (simp only: parseLoop_match [OF firstMatch_reparse ne] option.case)
qed

text \<open>
  The table \<open>reparseRules\<close> has a catch-all rule: its pattern matches every non-empty
  string and every match takes at least one character, and no more than there are. Yet
  the parse of \<^verbatim>\<open>a\<close> has no result within any budget: the builder hands the whole match
  back to the parser, which matches it again.
\<close>

theorem reparsing_builder_never_returns:
  "reparseRules ''text'' = Some reparse_rule \<and>
   (\<forall>c cs. \<exists>m. regex reparse_rule (c # cs) = Some m \<and> 1 \<le> length (whole m) \<and>
      length (whole m) \<le> length (c # cs)) \<and>
   regex reparse_rule [] = None \<and>
   (\<forall>n. nestedParse n reparseRules [''text''] (Some ''a'') None = None)"
proof (intro conjI allI)
  show "reparseRules ''text'' = Some reparse_rule" by (simp add: reparseRules_def)
  show "\<exists>m. regex reparse_rule (c # cs) = Some m \<and> 1 \<le> length (whole m) \<and>
      length (whole m) \<le> length (c # cs)" for c cs
    using text_regex_total [of c cs] by (simp add: reparse_rule_def)
  show "regex reparse_rule [] = None" by (simp add: reparse_rule_def text_regex_def)
  show "nestedParse n reparseRules [''text''] (Some ''a'') None = None" for n
    by (simp add: nestedParse_def source_or_empty_def parseLoop_reparse)
qed

lemma parseLoop_returns:
  assumes listed: "\<forall>t \<in> set ruleList. rules t \<noteq> None"
    and catch: "catch \<in> set ruleList" "rules catch = Some rc" "\<forall>s. s \<noteq> [] \<longrightarrow> regex rc s \<noteq> None"
    and consume: "\<forall>t r s c. rules t = Some r \<and> regex r s = Some c \<longrightarrow>
        1 \<le> length (whole c) \<and> length (whole c) \<le> length s"
    and builders: "\<forall>t r s c p st. rules t = Some r \<and> regex r s = Some c \<and>
        (\<forall>src so. length (source_or_empty src) < length (whole c) \<longrightarrow>
           (\<exists>v. p src so = Some (Inr v))) \<longrightarrow>
        (\<exists>v. parse r c p st = Some (Inr v))"
  shows "length source < n \<Longrightarrow>
         \<exists>v. parseLoop n rules ruleList source st result = Some (Inr v)"
proof (induction n arbitrary: source st result)
  case 0
  then show ?case by simp
next
  case (Suc n)
  show ?case
  proof (cases "source = []")
    case True
    then show ?thesis by simp
  next
    case False
    from catch(1) obtain j where j: "j < length ruleList" "ruleList ! j = catch"
      by (auto simp: in_set_conv_nth)
    from catch(3) False obtain cj where cj: "regex rc source = Some cj" by auto
    have "\<forall>m. 0 \<le> m \<and> m < j \<longrightarrow> rules (ruleList ! m) \<noteq> None"
      using listed j(1) by auto
    with firstMatch_finds [of 0 j ruleList rules rc source cj] j catch(2) cj
    obtain k r c where fm: "firstMatch rules ruleList source 0 = Inr (k, Some (ruleList ! k, r, c))"
      by auto
    from firstMatch_Some [OF fm] have r: "rules (ruleList ! k) = Some r"
      and c: "regex r source = Some c" by auto
    from consume r c have len: "1 \<le> length (whole c)" "length (whole c) \<le> length source"
      by blast+
    have cb: "\<forall>src so. length (source_or_empty src) < length (whole c) \<longrightarrow>
        (\<exists>v. nestedParse n rules ruleList src so = Some (Inr v))"
    proof (intro allI impI)
      fix src so
      assume "length (source_or_empty src) < length (whole c)"
      with len Suc.prems have "length (source_or_empty src) < n" by simp
      from Suc.IH [OF this] show "\<exists>v. nestedParse n rules ruleList src so = Some (Inr v)"
        by (simp add: nestedParse_def)
    qed
    from builders r c cb obtain v where
      "parse r c (nestedParse n rules ruleList) st = Some (Inr v)" by blast
    then obtain attrs st1 where b:
      "parse r c (nestedParse n rules ruleList) st = Some (Inr (attrs, st1))" by (cases v) auto
    have "length (drop (length (whole c)) source) < n"
      using len False Suc.prems by (cases source) auto
    from Suc.IH [OF this] obtain v' where
      "parseLoop n rules ruleList (drop (length (whole c)) source) st1
         (result @ [Obj (extend [(''type'', Str (ruleList ! k))] attrs)]) = Some (Inr v')"
      by blast
    with parseLoop_match [OF fm False, of n st result] b show ?thesis by simp
  qed
qed

text \<open>
  C2, with the conditions it needs. Let every rule type of the priority list be in the
  table, let one of them be a catch-all whose pattern matches every non-empty string, let
  every match take at least one character and no more than the remaining input, and let
  every builder return whenever the parser it is handed returns on every string shorter
  than the match. Then the parser returns a sequence of nodes on every input: a budget
  larger than the length of the input is enough, since every iteration and every nested
  parse works on a shorter string.
\<close>

theorem parse_returns_with_catch_all_and_sound_builders:
  assumes "\<forall>t \<in> set ruleList. rules t \<noteq> None"
    and "catch \<in> set ruleList" and "rules catch = Some rc"
    and "\<forall>s. s \<noteq> [] \<longrightarrow> regex rc s \<noteq> None"
    and "\<forall>t r s c. rules t = Some r \<and> regex r s = Some c \<longrightarrow>
        1 \<le> length (whole c) \<and> length (whole c) \<le> length s"
    and "\<forall>t r s c p st. rules t = Some r \<and> regex r s = Some c \<and>
        (\<forall>src so. length (source_or_empty src) < length (whole c) \<longrightarrow>
           (\<exists>v. p src so = Some (Inr v))) \<longrightarrow>
        (\<exists>v. parse r c p st = Some (Inr v))"
    and "length source < n"
  shows "\<exists>nodes st'. nestedParse n rules ruleList (Some source) st = Some (Inr (nodes, st'))"
proof -
  from parseLoop_returns [OF assms(1-6), of source n "state_or_fresh st" "[]"] assms(7)
  obtain v where "parseLoop n rules ruleList source (state_or_fresh st) [] = Some (Inr v)"
    by blast
  then show ?thesis by (cases v) (simp add: nestedParse_def source_or_empty_def)
qed


lemma length_takeWhile_dropWhile:
  "length (takeWhile P xs) + length (dropWhile P xs) = length xs"
  by (induction xs) auto

lemma newline_regex_length:
  "newline_regex s = Some c \<Longrightarrow> 1 \<le> length (whole c) \<and> length (whole c) \<le> length s"
  by (auto simp: newline_regex_def Let_def Suc_le_eq length_takeWhile_le split: if_splits)

lemma text_regex_length:
  "text_regex s = Some c \<Longrightarrow> 1 \<le> length (whole c) \<and> length (whole c) \<le> length s"
  by (auto simp: text_regex_def text_body_length split: list.splits)

lemma lheading_regex_length:
  assumes "lheading_regex s = Some c"
  shows "1 \<le> length (whole c) \<and> length (whole c) \<le> length s \<and>
         (\<exists>title. grp c 1 = Some title \<and> length title < length (whole c))"
proof -
  define title where "title = takeWhile (\<lambda>c. c \<noteq> NL) s"
  define d0 where "d0 = dropWhile (\<lambda>c. c \<noteq> NL) s"
  define r1 where "r1 = drop 1 d0"
  define sp1 where "sp1 = takeWhile (\<lambda>c. c = SP) r1"
  define r2 where "r2 = dropWhile (\<lambda>c. c = SP) r1"
  define line where "line = takeWhile (\<lambda>c. c = CHR ''='' \<or> c = CHR ''-'') r2"
  define r3 where "r3 = dropWhile (\<lambda>c. c = CHR ''='' \<or> c = CHR ''-'') r2"
  define sp2 where "sp2 = takeWhile (\<lambda>c. c = SP) r3"
  define r4 where "r4 = dropWhile (\<lambda>c. c = SP) r3"
  define nls where "nls = takeWhile (\<lambda>c. c = NL) r4"
  from assms have t: "take 1 d0 = [NL]"
    and w: "c = Capture (title @ [NL] @ sp1 @ line @ sp2 @ nls) [Some title, Some [last line]]"
    unfolding lheading_regex_def Let_def title_def d0_def r1_def sp1_def r2_def line_def
      r3_def sp2_def r4_def nls_def
    by (auto split: if_splits)
  have l0: "length title + length d0 = length s"
    unfolding title_def d0_def by (rule length_takeWhile_dropWhile)
  have l1: "length d0 = 1 + length r1" using t unfolding r1_def by (cases d0) auto
  have l2: "length sp1 + length r2 = length r1"
    unfolding sp1_def r2_def by (rule length_takeWhile_dropWhile)
  have l3: "length line + length r3 = length r2"
    unfolding line_def r3_def by (rule length_takeWhile_dropWhile)
  have l4: "length sp2 + length r4 = length r3"
    unfolding sp2_def r4_def by (rule length_takeWhile_dropWhile)
  have l5: "length nls \<le> length r4" unfolding nls_def by (rule length_takeWhile_le)
  have "length (whole c) = length title + 1 + length sp1 + length line + length sp2 + length nls"
    using w by simp
  moreover have "grp c 1 = Some title" using w by (simp add: grp_def)
  ultimately show ?thesis using l0 l1 l2 l3 l4 l5 by auto
qed

lemma someRules_cases:
  "someRules t = Some r \<Longrightarrow>
   (t = ''lheading'' \<and> r = lheading_rule) \<or> (t = ''newline'' \<and> r = newline_rule) \<or>
   (t = ''text'' \<and> r = text_rule)"
  by (auto simp: someRules_def split: if_splits)

theorem parse_returns_with_catch_all_and_sound_builders_witness:
  "(\<exists>nodes st'. nestedParse (Suc (length headingSource)) someRules somePriorities
       (Some headingSource) None = Some (Inr (nodes, st'))) \<and>
   nestedParse (Suc (length headingSource)) someRules somePriorities (Some headingSource) None =
     Some (Inr ([Obj [(''type'', Str ''heading''), (''level'', Num 1),
                      (''content'', Arr [textOf ''T''])], textOf ''x''], []))"
proof -
  have h1: "\<forall>t \<in> set somePriorities. someRules t \<noteq> None"
    by (simp add: someRules_def somePriorities_def)
  have h2: "''text'' \<in> set somePriorities" by (simp add: somePriorities_def)
  have h3: "someRules ''text'' = Some text_rule" by (simp add: someRules_def)
  have h4: "\<forall>s. s \<noteq> [] \<longrightarrow> regex text_rule s \<noteq> None"
    by (auto simp: text_rule_def text_regex_def split: list.splits)
  have h5: "\<forall>t r s c. someRules t = Some r \<and> regex r s = Some c \<longrightarrow>
        1 \<le> length (whole c) \<and> length (whole c) \<le> length s"
  proof (intro allI impI)
    fix t r s c
    assume a: "someRules t = Some r \<and> regex r s = Some c"
    from someRules_cases [of t r] a
    consider "r = lheading_rule" | "r = newline_rule" | "r = text_rule" by blast
    then show "1 \<le> length (whole c) \<and> length (whole c) \<le> length s"
    proof cases
      case 1
      with a lheading_regex_length [of s c] show ?thesis by (simp add: lheading_rule_def)
    next
      case 2
      with a newline_regex_length [of s c] show ?thesis by (simp add: newline_rule_def)
    next
      case 3
      with a text_regex_length [of s c] show ?thesis by (simp add: text_rule_def)
    qed
  qed
  have h6: "\<forall>t r s c p st. someRules t = Some r \<and> regex r s = Some c \<and>
        (\<forall>src so. length (source_or_empty src) < length (whole c) \<longrightarrow>
           (\<exists>v. p src so = Some (Inr v))) \<longrightarrow>
        (\<exists>v. parse r c p st = Some (Inr v))"
  proof (intro allI impI)
    fix t r s c st and p :: parsefn
    assume a: "someRules t = Some r \<and> regex r s = Some c \<and>
        (\<forall>src so. length (source_or_empty src) < length (whole c) \<longrightarrow>
           (\<exists>v. p src so = Some (Inr v)))"
    from someRules_cases [of t r] a
    consider "r = lheading_rule" | "r = newline_rule" | "r = text_rule" by blast
    then show "\<exists>v. parse r c p st = Some (Inr v)"
    proof cases
      case 1
      with a have "lheading_regex s = Some c" by (simp add: lheading_rule_def)
      from lheading_regex_length [OF this] obtain title where
        g: "grp c 1 = Some title" and l: "length title < length (whole c)" by blast
      from l have "length (source_or_empty (Some title)) < length (whole c)"
        by (simp add: source_or_empty_def)
      with a obtain v where "p (Some title) (Some st) = Some (Inr v)" by blast
      with g have "p (grp c 1) (Some st) = Some (Inr v)" by simp
      with 1 show ?thesis
        by (cases v) (simp add: lheading_rule_def lheading_parse_def)
    next
      case 2
      then show ?thesis by (simp add: newline_rule_def ignoreCapture_def)
    next
      case 3
      then show ?thesis by (simp add: text_rule_def text_parse_def)
    qed
  qed
  have h7: "length headingSource < Suc (length headingSource)" by simp
  note w = parse_returns_with_catch_all_and_sound_builders [OF h1 h2 h3 h4 h5 h6 h7, of None]
  have v: "nestedParse (Suc (length headingSource)) someRules somePriorities
      (Some headingSource) None =
     Some (Inr ([Obj [(''type'', Str ''heading''), (''level'', Num 1),
                      (''content'', Arr [textOf ''T''])], textOf ''x''], []))"
    by (simp add: nestedParse_def firstMatch.simps rule_defs headingSource_def
        source_or_empty_def state_or_fresh_def textOf_def)
  from w v show ?thesis by (intro conjI)
qed

section \<open>The state of nested parses\<close>










end
